theory Spec2Isabelle
  imports Main "HOL-Library.Word" "HOL-Library.Monad_Syntax"
begin

section \<open>Common conventions\<close>

text \<open>
  The containers of this library are C modules that work on caller-owned pointers.
  The embedding below follows these conventions throughout.

  \<^item> A function whose C result is an \<open>int32_t\<close> status returns a value of \<open>rc\<close>. The
    status macros come from \<open>util.h\<close>, which is not among the sources, so they are
    modelled as the constructors of a datatype (see \<open>rc\<close>).
  \<^item> A pointer that may be null is an \<open>option\<close>: \<open>None\<close> is the null pointer.
  \<^item> An operation that mutates the container returns the updated container next to
    its status.
  \<^item> An execution that performs an invalid memory access (a read or write outside an
    allocated block, a dereference of a null or freed pointer, a read of a field that
    was never written) has no defined result in C. Such an execution is the outer
    \<open>None\<close> of the result type \<open>_ option\<close> of an operation.
  \<^item> An item, key byte buffer or value handed to the container is never inspected by
    it except where the code does so (\<open>memcmp\<close> over key bytes), so items and values
    are natural numbers standing for the pointer values.
\<close>

text \<open>
  Modelled from the spec: the status codes of \<open>util.h\<close> (not among the sources). The
  specification (section 7) lists them as distinct kinds; only their being different
  from each other is used.
\<close>

datatype rc =
    SUCC | ERR_NOINIT | ERR_NOMEM | ERR_IDX | ERR_KEYSIZE | ERR_GET | ERR_NODATA
  | NOKEY | END

type_synonym int32_t = "32 word"

type_synonym Item = nat

text \<open>
  Array cells. A cell of a block obtained from \<open>malloc\<close> or \<open>realloc\<close> that was
  never written holds an indeterminate value: \<open>None\<close>. A written cell holds
  \<open>Some item\<close>.
\<close>

type_synonym cell = "Item option"

definition load :: "'a list \<Rightarrow> int \<Rightarrow> 'a option" where
  "load a i = (if 0 \<le> i \<and> i < int (length a) then Some (a ! nat i) else None)"

definition store :: "'a list \<Rightarrow> int \<Rightarrow> 'a \<Rightarrow> 'a list option" where
  "store a i x = (if 0 \<le> i \<and> i < int (length a) then Some (a[nat i := x]) else None)"

text \<open>
  \<open>memmove a dst src n\<close> copies the \<open>n\<close> cells starting at index \<open>src\<close> to the cells
  starting at index \<open>dst\<close> of the same block, as if through a temporary buffer. Both
  ranges must lie inside the block.
\<close>

definition memmove :: "'a list \<Rightarrow> nat \<Rightarrow> nat \<Rightarrow> nat \<Rightarrow> 'a list option" where
  "memmove a dst src n =
     (if dst + n \<le> length a \<and> src + n \<le> length a
      then Some (take dst a @ take n (drop src a) @ drop (dst + n) a)
      else None)"

text \<open>
  \<open>realloc ok a n\<close> models \<open>realloc(a, n * sizeof(Item))\<close> for an \<open>int32_t\<close> count
  \<open>n\<close>. The flag \<open>ok\<close> is the allocator's answer, an input of the model. A negative
  count converts to a byte count near the top of the \<open>size_t\<close> range, which no
  allocator grants, so the result is null whatever \<open>ok\<close> says. For a count of 0 the C
  standard leaves the result to the implementation; the model follows the flag: a block
  of no cells when \<open>ok\<close> holds, a null result otherwise. On success the new block
  keeps the old cells up to the smaller of the two lengths; further cells are
  indeterminate. On a null result the old block stays as it is.
\<close>

definition realloc :: "bool \<Rightarrow> cell list \<Rightarrow> int32_t \<Rightarrow> cell list option" where
  "realloc ok a n =
     (if ok \<and> 0 \<le> sint n
      then Some (take (nat (sint n)) a @ replicate (nat (sint n) - length a) None)
      else None)"

section \<open>Dynamic array (vector)\<close>

subsection \<open>Model\<close>

text \<open>
  A destroy callback is a function pointer; the model names it by a number. Calls made
  through it are recorded, in order, in \<open>calls_v\<close>, which is not a field of the C struct:
  it is the trace of the calls \<open>pData->pDestroy_(item)\<close> the code has made, each with the
  callback that was installed and the cell value it was given.

  The public \<open>Vector\<close> struct holds only \<open>pData\<close> and the table of function pointers,
  which \<open>VectorInit\<close> fills once; a vector handle is therefore modelled as
  \<open>VectorData option\<close>, \<open>None\<close> being the null handle.
\<close>

type_synonym destroy_fn = nat

text \<open>
  The fields \<open>iSize_\<close>, \<open>iCapacity_\<close>, \<open>aItem_\<close> and \<open>pDestroy_\<close> of
  \<open>struct _VectorData\<close>. A field name cannot end with an underscore in Isabelle, so
  each carries the suffix \<open>v\<close> (for vector).
\<close>

record VectorData =
  iSize_v :: int32_t
  iCapacity_v :: int32_t
  aItem_v :: "cell list"
  pDestroy_v :: destroy_fn
  calls_v :: "(destroy_fn \<times> cell) list"

definition DEFAULT_CAPACITY :: int32_t where
  "DEFAULT_CAPACITY = 1"

definition VectorItemDestroy :: destroy_fn where
  "VectorItemDestroy = 0"

definition call_destroy :: "VectorData \<Rightarrow> cell \<Rightarrow> VectorData" where
  "call_destroy pData c = pData\<lparr>calls_v := calls_v pData @ [(pDestroy_v pData, c)]\<rparr>"

text \<open>
  Isabelle does not accept a name that begins or ends with an underscore: the internal
  functions \<open>_VectorItemDestroy\<close> and \<open>_VectorReisze\<close> of the source are
  \<open>VectorItemDestroy\<close> and \<open>VectorReisze\<close> here.
\<close>

text \<open>
  The three allocations of \<open>VectorInit\<close>; \<open>m1\<close>, \<open>m2\<close>, \<open>m3\<close> say whether each
  succeeds. The result is the status and the handle written to \<open>*ppObj\<close>.
\<close>

definition VectorInit :: "bool \<Rightarrow> bool \<Rightarrow> bool \<Rightarrow> rc \<times> VectorData option" where
  "VectorInit m1 m2 m3 =
     (if \<not> m1 then (ERR_NOMEM, None)
      else if \<not> m2 then (ERR_NOMEM, None)
      else if \<not> m3 then (ERR_NOMEM, None)
      else (SUCC, Some \<lparr>iSize_v = 0, iCapacity_v = DEFAULT_CAPACITY,
                        aItem_v = replicate (nat (sint DEFAULT_CAPACITY)) None,
                        pDestroy_v = VectorItemDestroy, calls_v = []\<rparr>))"

text \<open>
  The loop of \<open>_VectorReisze\<close> that runs the destroy callback on the cells
  \<open>iIdx, iIdx + 1, ...\<close> below \<open>iSize_\<close>.
\<close>

function destroy_trailing :: "VectorData \<Rightarrow> int32_t \<Rightarrow> VectorData option" where
  "destroy_trailing pData iIdx =
     (if sint iIdx < sint (iSize_v pData)
      then (case load (aItem_v pData) (sint iIdx) of
              None \<Rightarrow> None
            | Some c \<Rightarrow> destroy_trailing (call_destroy pData c) (iIdx + 1))
      else Some pData)"
  by pat_completeness auto

lemma sint_succ:
  fixes a b :: int32_t
  assumes "sint a < sint b"
  shows "sint (a + 1) = sint a + 1"
proof -
  have "sint b \<le> 2147483647" using sint_lt [of b] by simp
  moreover have "- 2147483648 \<le> sint a" using sint_ge [of a] by simp
  ultimately have "signed_take_bit 31 (sint a + 1) = sint a + 1"
    using assms by (intro signed_take_bit_int_eq_self) auto
  then show ?thesis by (simp add: sint_word_ariths)
qed

lemma iSize_call_destroy [simp]: "iSize_v (call_destroy pData c) = iSize_v pData"
  by (simp add: call_destroy_def)

termination destroy_trailing
  by (relation "measure (\<lambda>(pData, iIdx). nat (sint (iSize_v pData) - sint iIdx))")
     (auto simp: sint_succ)

declare destroy_trailing.simps [simp del]

definition VectorReisze :: "bool \<Rightarrow> VectorData \<Rightarrow> int32_t \<Rightarrow> bool \<Rightarrow> (rc \<times> VectorData) option" where
  "VectorReisze ok pData iSizeNew bClean =
     do {
       pData1 \<leftarrow> (if sint iSizeNew < sint (iSize_v pData) \<and> bClean
                  then do {
                    pData' \<leftarrow> destroy_trailing pData iSizeNew;
                    Some (pData'\<lparr>iSize_v := iSizeNew\<rparr>)
                  }
                  else Some pData);
       (case realloc ok (aItem_v pData1) iSizeNew of
          Some aItemNew \<Rightarrow> Some (SUCC, pData1\<lparr>iCapacity_v := iSizeNew, aItem_v := aItemNew\<rparr>)
        | None \<Rightarrow> Some (ERR_NOMEM, pData1))
     }"

text \<open>
  The growth step shared by \<open>VectorPushBack\<close> and \<open>VectorInsert\<close>: when the array is
  full, double its capacity. The result is \<open>Inl\<close> the status to return at once, or
  \<open>Inr\<close> the data to continue with. The product \<open>iCapacity_ * 2\<close> is an
  \<open>int32_t\<close>: from a capacity of \<open>2 ^ 30\<close> on it wraps to a negative count, which
  \<open>realloc\<close> refuses.
\<close>

definition grow_if_full :: "bool \<Rightarrow> VectorData \<Rightarrow> (rc \<times> VectorData + VectorData) option" where
  "grow_if_full ok pData =
     (if iSize_v pData = iCapacity_v pData
      then do {
        (iRtnCode, pData') \<leftarrow> VectorReisze ok pData (iCapacity_v pData * 2) False;
        if iRtnCode \<noteq> SUCC then Some (Inl (iRtnCode, pData')) else Some (Inr pData')
      }
      else Some (Inr pData))"

definition VectorPushBack :: "bool \<Rightarrow> VectorData option \<Rightarrow> Item \<Rightarrow> (rc \<times> VectorData option) option" where
  "VectorPushBack ok self item =
     (case self of
        None \<Rightarrow> Some (ERR_NOINIT, None)
      | Some pData \<Rightarrow>
          do {
            g \<leftarrow> grow_if_full ok pData;
            (case g of
               Inl (iRtnCode, pData') \<Rightarrow> Some (iRtnCode, Some pData')
             | Inr pData' \<Rightarrow>
                 do {
                   aItem \<leftarrow> store (aItem_v pData') (sint (iSize_v pData')) (Some item);
                   Some (SUCC, Some (pData'\<lparr>iSize_v := iSize_v pData' + 1, aItem_v := aItem\<rparr>))
                 })
          })"

definition VectorInsert :: "bool \<Rightarrow> VectorData option \<Rightarrow> Item \<Rightarrow> int32_t \<Rightarrow> (rc \<times> VectorData option) option" where
  "VectorInsert ok self item iIdx =
     (case self of
        None \<Rightarrow> Some (ERR_NOINIT, None)
      | Some pData \<Rightarrow>
          if sint iIdx < 0 \<or> sint iIdx > sint (iSize_v pData) then Some (ERR_IDX, Some pData)
          else do {
            g \<leftarrow> grow_if_full ok pData;
            (case g of
               Inl (iRtnCode, pData') \<Rightarrow> Some (iRtnCode, Some pData')
             | Inr pData' \<Rightarrow>
                 do {
                   let iShftSize = iSize_v pData' - iIdx;
                   aItem \<leftarrow> (if sint iShftSize > 0
                             then memmove (aItem_v pData') (nat (sint iIdx) + 1) (nat (sint iIdx))
                                    (nat (sint iShftSize))
                             else Some (aItem_v pData'));
                   aItem' \<leftarrow> store aItem (sint iIdx) (Some item);
                   Some (SUCC, Some (pData'\<lparr>iSize_v := iSize_v pData' + 1, aItem_v := aItem'\<rparr>))
                 })
          })"

definition VectorPopBack :: "VectorData option \<Rightarrow> bool \<Rightarrow> (rc \<times> VectorData option) option" where
  "VectorPopBack self bClean =
     (case self of
        None \<Rightarrow> Some (ERR_NOINIT, None)
      | Some pData \<Rightarrow>
          if iSize_v pData = 0 then Some (ERR_IDX, Some pData)
          else do {
            let pData' = pData\<lparr>iSize_v := iSize_v pData - 1\<rparr>;
            if bClean
            then do {
              item \<leftarrow> load (aItem_v pData') (sint (iSize_v pData'));
              Some (SUCC, Some (call_destroy pData' item))
            }
            else Some (SUCC, Some pData')
          })"

definition VectorDelete :: "VectorData option \<Rightarrow> int32_t \<Rightarrow> bool \<Rightarrow> (rc \<times> VectorData option) option" where
  "VectorDelete self iIdx bClean =
     (case self of
        None \<Rightarrow> Some (ERR_NOINIT, None)
      | Some pData \<Rightarrow>
          if sint iIdx < 0 \<or> sint iIdx \<ge> sint (iSize_v pData) then Some (ERR_IDX, Some pData)
          else do {
            pData' \<leftarrow> (if bClean
                       then do {
                         c \<leftarrow> load (aItem_v pData) (sint iIdx);
                         Some (call_destroy pData c)
                       }
                       else Some pData);
            let iShftSize = iSize_v pData' - iIdx - 1;
            aItem \<leftarrow> (if sint iShftSize > 0
                      then memmove (aItem_v pData') (nat (sint iIdx)) (nat (sint iIdx) + 1)
                             (nat (sint iShftSize))
                      else Some (aItem_v pData'));
            Some (SUCC, Some (pData'\<lparr>iSize_v := iSize_v pData' - 1, aItem_v := aItem\<rparr>))
          })"

definition VectorResize :: "bool \<Rightarrow> VectorData option \<Rightarrow> int32_t \<Rightarrow> bool \<Rightarrow> (rc \<times> VectorData option) option" where
  "VectorResize ok self iSize bClean =
     (case self of
        None \<Rightarrow> Some (ERR_NOINIT, None)
      | Some pData \<Rightarrow>
          do {
            (r, pData') \<leftarrow> VectorReisze ok pData iSize bClean;
            Some (r, Some pData')
          })"

text \<open>
  \<open>VectorSize\<close> and \<open>VectorCapacity\<close> return the status \<open>ERR_NOINIT\<close> or the count in
  the same \<open>int32_t\<close>; the model keeps the two apart as \<open>Inl\<close> and \<open>Inr\<close>.
\<close>

definition VectorSize :: "VectorData option \<Rightarrow> rc + int32_t" where
  "VectorSize self = (case self of None \<Rightarrow> Inl ERR_NOINIT | Some pData \<Rightarrow> Inr (iSize_v pData))"

definition VectorCapacity :: "VectorData option \<Rightarrow> rc + int32_t" where
  "VectorCapacity self =
     (case self of None \<Rightarrow> Inl ERR_NOINIT | Some pData \<Rightarrow> Inr (iCapacity_v pData))"


text \<open>
  \<open>VectorGet\<close> writes the cell to \<open>*pItem\<close> on success and leaves \<open>*pItem\<close> alone
  otherwise. The argument \<open>pItem\<close> of the model is the content of \<open>*pItem\<close> before
  the call, the second component of the result its content after.
\<close>

definition VectorGet :: "VectorData option \<Rightarrow> cell \<Rightarrow> int32_t \<Rightarrow> (rc \<times> cell) option" where
  "VectorGet self pItem iIdx =
     (case self of
        None \<Rightarrow> Some (ERR_NOINIT, pItem)
      | Some pData \<Rightarrow>
          if sint iIdx < 0 \<or> sint iIdx \<ge> sint (iSize_v pData) then Some (ERR_IDX, pItem)
          else do {
            c \<leftarrow> load (aItem_v pData) (sint iIdx);
            Some (SUCC, c)
          })"

text \<open>
  \<open>VectorSetDestroy\<close> (lines 258 to 263): the null-handle branch returns
  \<open>ERR_NOINIT\<close>; the other branch assigns \<open>pDestroy_\<close> and reaches the closing brace
  of the function without a \<open>return\<close> statement. The value a caller then reads is
  not defined by the function: the first component of the result is \<open>None\<close>.
\<close>

definition VectorSetDestroy :: "VectorData option \<Rightarrow> destroy_fn \<Rightarrow> rc option \<times> VectorData option" where
  "VectorSetDestroy self pFunc =
     (case self of
        None \<Rightarrow> (Some ERR_NOINIT, None)
      | Some pData \<Rightarrow> (None, Some (pData\<lparr>pDestroy_v := pFunc\<rparr>)))"

text \<open>
  The invariant of the data model (specification, section 3): the size is between 0 and
  the capacity, the array has exactly \<open>iCapacity_\<close> cells, and the capacity is
  positive (\<open>VectorInit\<close> starts at 1 and the note on \<open>_VectorReisze\<close> asks for a
  capacity greater than zero).
\<close>

definition vector_inv :: "VectorData \<Rightarrow> bool" where
  "vector_inv d =
     (0 \<le> sint (iSize_v d) \<and> sint (iSize_v d) \<le> sint (iCapacity_v d)
      \<and> 0 < sint (iCapacity_v d) \<and> int (length (aItem_v d)) = sint (iCapacity_v d))"

text \<open>The logical content of a vector: its first \<open>iSize_\<close> cells.\<close>

definition items_v :: "VectorData \<Rightarrow> cell list" where
  "items_v d = take (nat (sint (iSize_v d))) (aItem_v d)"

text \<open>
  The invariant as section 3 of the specification words it, without the condition on
  the capacity: a vector whose capacity is 0 satisfies it.
\<close>

definition vector_inv0 :: "VectorData \<Rightarrow> bool" where
  "vector_inv0 d =
     (0 \<le> sint (iSize_v d) \<and> sint (iSize_v d) \<le> sint (iCapacity_v d)
      \<and> int (length (aItem_v d)) = sint (iCapacity_v d))"

text \<open>
  Concrete vectors used to exercise the theorems. \<open>vec1\<close>, \<open>vec2\<close>, \<open>vec3\<close> and
  \<open>vec4\<close> satisfy the invariant; \<open>vec1\<close> and \<open>vec4\<close> are full. \<open>vec5\<close> is \<open>vec3\<close>
  after \<open>VectorResize\<close> to 2 without cleanup: three items are counted, two cells are
  left. \<open>vec6\<close> is \<open>vec1\<close> after \<open>VectorResize\<close> to 0 with cleanup, when the
  allocator answers a request for 0 bytes with a block.
\<close>

definition vec1 :: VectorData where
  "vec1 = \<lparr>iSize_v = 1, iCapacity_v = 1, aItem_v = [Some 7], pDestroy_v = VectorItemDestroy,
            calls_v = []\<rparr>"


definition vec3 :: VectorData where
  "vec3 = \<lparr>iSize_v = 3, iCapacity_v = 4, aItem_v = [Some 5, Some 6, Some 8, None],
            pDestroy_v = 1, calls_v = []\<rparr>"

definition vec4 :: VectorData where
  "vec4 = \<lparr>iSize_v = 2, iCapacity_v = 2, aItem_v = [Some 5, Some 6], pDestroy_v = 1,
            calls_v = []\<rparr>"

definition vec5 :: VectorData where
  "vec5 = \<lparr>iSize_v = 3, iCapacity_v = 2, aItem_v = [Some 5, Some 6], pDestroy_v = 1,
            calls_v = []\<rparr>"

definition vec6 :: VectorData where
  "vec6 = \<lparr>iSize_v = 0, iCapacity_v = 0, aItem_v = [], pDestroy_v = VectorItemDestroy,
            calls_v = [(VectorItemDestroy, Some 7)]\<rparr>"

subsection \<open>Properties\<close>

text \<open>
  C3 (set\_destroy returns the success marker). On a non-null handle
  \<open>VectorSetDestroy\<close> installs the callback but returns no value at all: the function
  body ends without a \<open>return\<close>, so its result is neither the success marker nor any
  of the error kinds.
\<close>

theorem VectorSetDestroy_no_return_value:
  "VectorSetDestroy (Some pData) pFunc = (None, Some (pData\<lparr>pDestroy_v := pFunc\<rparr>))
   \<and> fst (VectorSetDestroy (Some pData) pFunc) \<noteq> Some SUCC"
  by (simp add: VectorSetDestroy_def)

lemma sint_diff:
  fixes a b :: int32_t
  assumes "0 \<le> sint a" "0 \<le> sint b"
  shows "sint (b - a) = sint b - sint a"
proof -
  have "sint b \<le> 2147483647" "sint a \<le> 2147483647" using sint_lt [of b] sint_lt [of a] by simp_all
  then have "signed_take_bit 31 (sint b - sint a) = sint b - sint a"
    using assms by (intro signed_take_bit_int_eq_self) auto
  then show ?thesis by (simp add: sint_word_ariths)
qed

lemma sint_pred:
  fixes a :: int32_t
  assumes "0 < sint a"
  shows "sint (a - 1) = sint a - 1"
  using sint_diff [of 1 a] assms by simp

lemma sint_double:
  fixes c :: int32_t
  assumes "0 < sint c" "0 \<le> sint (c * 2)"
  shows "sint (c * 2) = 2 * sint c"
proof -
  have eq: "sint (c * 2) = signed_take_bit 31 (sint c * 2)" by (simp add: sint_word_ariths)
  have ub: "sint c \<le> 2147483647" using sint_lt [of c] by simp
  show ?thesis
  proof (cases "sint c * 2 < 2147483648")
    case True
    then have "signed_take_bit 31 (sint c * 2) = sint c * 2"
      using assms by (intro signed_take_bit_int_eq_self) auto
    with eq show ?thesis by simp
  next
    case False
    then have "2 ^ 31 \<le> sint c * 2" by simp
    then have "signed_take_bit 31 (sint c * 2) \<le> sint c * 2 - 2 ^ Suc 31"
      by (rule signed_take_bit_int_less_eq)
    moreover have "(2::int) ^ Suc 31 = 4294967296" by simp
    ultimately have "sint (c * 2) \<le> sint c * 2 - 4294967296" using eq by presburger
    with ub assms show ?thesis by linarith
  qed
qed

lemma destroy_trailing_eq:
  "0 \<le> sint k \<Longrightarrow> sint k \<le> sint (iSize_v d) \<Longrightarrow> sint (iSize_v d) \<le> int (length (aItem_v d)) \<Longrightarrow>
   destroy_trailing d k =
     Some (d\<lparr>calls_v := calls_v d @
              map (\<lambda>j. (pDestroy_v d, aItem_v d ! j)) [nat (sint k)..<nat (sint (iSize_v d))]\<rparr>)"
proof (induction d k rule: destroy_trailing.induct)
  case (1 pData iIdx)
  show ?case
  proof (cases "sint iIdx < sint (iSize_v pData)")
    case False
    with 1 show ?thesis by (simp add: destroy_trailing.simps)
  next
    case True
    let ?c = "aItem_v pData ! nat (sint iIdx)"
    have ld: "load (aItem_v pData) (sint iIdx) = Some ?c"
      using True 1 by (simp add: load_def)
    have s: "sint (iIdx + 1) = sint iIdx + 1" using True by (rule sint_succ)
    have ih: "destroy_trailing (call_destroy pData ?c) (iIdx + 1) =
       Some ((call_destroy pData ?c)\<lparr>calls_v := calls_v (call_destroy pData ?c) @
              map (\<lambda>j. (pDestroy_v (call_destroy pData ?c), aItem_v (call_destroy pData ?c) ! j))
                [nat (sint (iIdx + 1))..<nat (sint (iSize_v (call_destroy pData ?c)))]\<rparr>)"
      using 1 True ld s by (intro "1.IH") (auto simp: call_destroy_def)
    have u: "[nat (sint iIdx)..<nat (sint (iSize_v pData))] =
             nat (sint iIdx) # [nat (sint iIdx + 1)..<nat (sint (iSize_v pData))]"
    proof -
      have lt: "nat (sint iIdx) < nat (sint (iSize_v pData))" using True 1 by linarith
      have "nat (sint iIdx + 1) = Suc (nat (sint iIdx))" using 1 by linarith
      then show ?thesis using upt_conv_Cons [OF lt] by presburger
    qed
    have "destroy_trailing pData iIdx = destroy_trailing (call_destroy pData ?c) (iIdx + 1)"
      using True ld by (subst destroy_trailing.simps) simp
    also note ih
    finally show ?thesis
      unfolding s u by (simp add: call_destroy_def)
  qed
qed

lemma insert_list_eq:
  "k \<le> s \<Longrightarrow> s < length a \<Longrightarrow>
   (take (Suc k) a @ take (s - k) (drop k a) @ drop (Suc s) a)[k := y]
     = take k a @ y # take (s - k) (drop k a) @ drop (Suc s) a"
  by (simp add: take_Suc_conv_app_nth list_update_append)

lemma grow_if_full_cases:
  assumes "vector_inv d"
  shows "grow_if_full ok d =
     (if iSize_v d \<noteq> iCapacity_v d then Some (Inr d)
      else if ok \<and> 0 \<le> sint (iCapacity_v d * 2)
      then Some (Inr (d\<lparr>iCapacity_v := iCapacity_v d * 2,
                         aItem_v := aItem_v d @ replicate (nat (sint (iCapacity_v d))) None\<rparr>))
      else Some (Inl (ERR_NOMEM, d)))"
proof (cases "iSize_v d = iCapacity_v d")
  case False
  then show ?thesis by (simp add: grow_if_full_def)
next
  case True
  have len: "int (length (aItem_v d)) = sint (iCapacity_v d)" and pos: "0 < sint (iCapacity_v d)"
    using assms by (simp_all add: vector_inv_def)
  show ?thesis
  proof (cases "ok \<and> 0 \<le> sint (iCapacity_v d * 2)")
    case False
    then have "realloc ok (aItem_v d) (iCapacity_v d * 2) = None"
      by (auto simp: realloc_def)
    with True False show ?thesis
      by (simp add: grow_if_full_def VectorReisze_def)
  next
    case ok: True
    then have dbl: "sint (iCapacity_v d * 2) = 2 * sint (iCapacity_v d)"
      using pos by (intro sint_double) auto
    have n: "nat (sint (iCapacity_v d * 2)) = 2 * length (aItem_v d)"
      using dbl len by linarith
    have "realloc ok (aItem_v d) (iCapacity_v d * 2) =
            Some (aItem_v d @ replicate (length (aItem_v d)) None)"
      using ok n by (simp add: realloc_def)
    moreover have "nat (sint (iCapacity_v d)) = length (aItem_v d)" using len by linarith
    ultimately show ?thesis using True ok
      by (simp add: grow_if_full_def VectorReisze_def)
  qed
qed

lemma grow_if_full_Inr:
  assumes "vector_inv d" "grow_if_full ok d = Some (Inr d1)"
  shows "iSize_v d1 = iSize_v d \<and> sint (iSize_v d) < int (length (aItem_v d1))
    \<and> int (length (aItem_v d1)) = sint (iCapacity_v d1)
    \<and> take (length (aItem_v d)) (aItem_v d1) = aItem_v d
    \<and> length (aItem_v d) \<le> length (aItem_v d1)
    \<and> calls_v d1 = calls_v d \<and> pDestroy_v d1 = pDestroy_v d"
proof -
  have len: "int (length (aItem_v d)) = sint (iCapacity_v d)" and pos: "0 < sint (iCapacity_v d)"
    and le: "sint (iSize_v d) \<le> sint (iCapacity_v d)"
    using assms(1) by (simp_all add: vector_inv_def)
  show ?thesis
  proof (cases "iSize_v d = iCapacity_v d")
    case False
    then have "d1 = d" using assms by (simp add: grow_if_full_cases)
    moreover have "sint (iSize_v d) \<noteq> sint (iCapacity_v d)"
      using False word_eq_iff_signed by blast
    ultimately show ?thesis using len le by simp
  next
    case True
    let ?D = "d\<lparr>iCapacity_v := iCapacity_v d * 2,
                  aItem_v := aItem_v d @ replicate (nat (sint (iCapacity_v d))) None\<rparr>"
    have c: "grow_if_full ok d =
        (if ok \<and> 0 \<le> sint (iCapacity_v d * 2) then Some (Inr ?D) else Some (Inl (ERR_NOMEM, d)))"
      using True grow_if_full_cases [OF assms(1), of ok] by simp
    have ok: "ok \<and> 0 \<le> sint (iCapacity_v d * 2)"
    proof (rule ccontr)
      assume "\<not> (ok \<and> 0 \<le> sint (iCapacity_v d * 2))"
      then have "grow_if_full ok d = Some (Inl (ERR_NOMEM, d))" using c by simp
      with assms(2) show False by simp
    qed
    then have "grow_if_full ok d = Some (Inr ?D)" using c by simp
    with assms(2) have d1: "d1 = ?D" by simp
    have dbl: "sint (iCapacity_v d * 2) = 2 * sint (iCapacity_v d)"
      using ok pos by (intro sint_double) auto
    have n: "nat (sint (iCapacity_v d)) = length (aItem_v d)" using len by linarith
    show ?thesis unfolding d1 using dbl len le pos n by simp
  qed
qed

lemma VectorInsert_grown:
  assumes i: "0 \<le> sint i" "sint i \<le> sint (iSize_v d)"
    and g: "grow_if_full ok d = Some (Inr d1)"
    and s1: "iSize_v d1 = iSize_v d"
    and len: "sint (iSize_v d) < int (length (aItem_v d1))"
  shows "VectorInsert ok (Some d) x i =
     Some (SUCC, Some (d1\<lparr>iSize_v := iSize_v d + 1,
        aItem_v := take (nat (sint i)) (aItem_v d1) @ Some x #
                   take (nat (sint (iSize_v d)) - nat (sint i)) (drop (nat (sint i)) (aItem_v d1)) @
                   drop (Suc (nat (sint (iSize_v d)))) (aItem_v d1)\<rparr>))"
proof -
  define a where "a = aItem_v d1"
  define k where "k = nat (sint i)"
  define s where "s = nat (sint (iSize_v d))"
  define A where "A = take k a @ Some x # take (s - k) (drop k a) @ drop (Suc s) a"
  have ks: "k \<le> s" "s < length a" using i len unfolding k_def s_def a_def by linarith+
  have ik: "sint i = int k" using i unfolding k_def by simp
  have sh: "sint (iSize_v d1 - i) = int (s - k)"
    using i sint_diff [of i "iSize_v d"] unfolding s1 k_def s_def by linarith
  have rng: "\<not> (sint i < 0 \<or> sint (iSize_v d) < sint i)" using i by linarith
  have "VectorInsert ok (Some d) x i = Some (SUCC, Some (d1\<lparr>iSize_v := iSize_v d1 + 1, aItem_v := A\<rparr>))"
  proof (cases "k < s")
    case True
    have mm: "memmove a (Suc k) k (s - k) = Some (take (Suc k) a @ take (s - k) (drop k a) @ drop (Suc s) a)"
      using ks by (simp add: memmove_def)
    have st: "store (take (Suc k) a @ take (s - k) (drop k a) @ drop (Suc s) a) (int k) (Some x)
        = Some A"
      using ks insert_list_eq [of k s a "Some x"] by (simp add: store_def A_def)
    show ?thesis
      unfolding VectorInsert_def using rng True
      by (simp add: g Let_def sh ik a_def [symmetric] mm st del: of_nat_diff)
  next
    case False
    then have eq: "s = k" using ks by linarith
    have st: "store a (int k) (Some x) = Some A"
      using ks unfolding eq A_def by (simp add: store_def upd_conv_take_nth_drop)
    show ?thesis
      unfolding VectorInsert_def using rng False
      by (simp add: g Let_def sh ik a_def [symmetric] st del: of_nat_diff)
  qed
  then show ?thesis unfolding A_def a_def k_def s_def s1 .
qed

lemma VectorGet_in_range:
  assumes "0 \<le> sint j" "sint j < sint (iSize_v d)" "sint (iSize_v d) \<le> int (length (aItem_v d))"
  shows "VectorGet (Some d) p j = Some (SUCC, aItem_v d ! nat (sint j))"
proof -
  have "\<not> (sint j < 0 \<or> sint (iSize_v d) \<le> sint j)" using assms by linarith
  moreover have "load (aItem_v d) (sint j) = Some (aItem_v d ! nat (sint j))"
    using assms by (simp add: load_def)
  ultimately show ?thesis by (simp add: VectorGet_def)
qed

lemma VectorGet_out_of_range:
  assumes "sint j < 0 \<or> sint (iSize_v d) \<le> sint j"
  shows "VectorGet (Some d) p j = Some (ERR_IDX, p)"
  using assms by (simp add: VectorGet_def)

lemma VectorDelete_in_range:
  assumes i: "0 \<le> sint i" "sint i < sint (iSize_v d)"
    and len: "sint (iSize_v d) \<le> int (length (aItem_v d))"
  shows "VectorDelete (Some d) i bClean =
     Some (SUCC, Some (d\<lparr>iSize_v := iSize_v d - 1,
        aItem_v := take (nat (sint i)) (aItem_v d) @
                   take (nat (sint (iSize_v d)) - Suc (nat (sint i))) (drop (Suc (nat (sint i))) (aItem_v d)) @
                   drop (nat (sint (iSize_v d)) - 1) (aItem_v d),
        calls_v := (if bClean then calls_v d @ [(pDestroy_v d, aItem_v d ! nat (sint i))]
                    else calls_v d)\<rparr>))"
proof -
  define a where "a = aItem_v d"
  define k where "k = nat (sint i)"
  define s where "s = nat (sint (iSize_v d))"
  define A where "A = take k a @ take (s - Suc k) (drop (Suc k) a) @ drop (s - 1) a"
  have ks: "k < s" "s \<le> length a" using i len unfolding k_def s_def a_def by linarith+
  have ik: "sint i = int k" using i unfolding k_def by simp
  have rng: "\<not> (sint i < 0 \<or> sint (iSize_v d) \<le> sint i)" using i by linarith
  have ld: "load a (int k) = Some (a ! k)" using ks by (simp add: load_def)
  have sh0: "sint (iSize_v d - i) = sint (iSize_v d) - sint i" using i by (intro sint_diff) auto
  have sh: "sint (iSize_v d - i - 1) = int (s - Suc k)"
    using i sh0 sint_pred [of "iSize_v d - i"] unfolding k_def s_def by linarith
  have e: "k + (s - Suc k) = s - 1" using ks by linarith
  have "VectorDelete (Some d) i bClean =
     Some (SUCC, Some (d\<lparr>iSize_v := iSize_v d - 1, aItem_v := A,
        calls_v := (if bClean then calls_v d @ [(pDestroy_v d, a ! k)] else calls_v d)\<rparr>))"
  proof (cases "Suc k < s")
    case True
    have mm: "memmove a k (Suc k) (s - Suc k) = Some A"
      using ks True by (simp add: memmove_def e A_def)
    show ?thesis
      unfolding VectorDelete_def using rng True
      by (cases bClean)
         (simp_all add: Let_def sh ik ld mm a_def [symmetric] call_destroy_def del: of_nat_diff)
  next
    case False
    then have eq: "s = Suc k" using ks by linarith
    have "A = a" unfolding A_def eq by simp
    then show ?thesis
      unfolding VectorDelete_def using rng False
      by (cases bClean)
         (simp_all add: Let_def sh ik ld a_def [symmetric] call_destroy_def del: of_nat_diff)
  qed
  then show ?thesis unfolding A_def a_def k_def s_def .
qed


lemma take_prefix: "length xs = n \<Longrightarrow> take n (xs @ ys) = xs"
  by simp

text \<open>The vector that \<open>VectorInit\<close> builds is empty and satisfies the invariant.\<close>

lemma VectorInit_inv:
  "\<exists>d. VectorInit True True True = (SUCC, Some d) \<and> vector_inv d \<and> items_v d = []"
  by (simp add: VectorInit_def vector_inv_def items_v_def DEFAULT_CAPACITY_def)

lemma VectorInsert_inv:
  assumes inv: "vector_inv d" and i: "0 \<le> sint i" "sint i \<le> sint (iSize_v d)"
    and ins: "VectorInsert ok (Some d) x i = Some (SUCC, Some d')"
  shows "vector_inv d' \<and> sint (iSize_v d') = sint (iSize_v d) + 1
     \<and> items_v d' = take (nat (sint i)) (items_v d) @ Some x # drop (nat (sint i)) (items_v d)
     \<and> calls_v d' = calls_v d \<and> pDestroy_v d' = pDestroy_v d"
proof -
  have rng: "\<not> (sint i < 0 \<or> sint (iSize_v d) < sint i)" using i by linarith
  obtain d1 where g: "grow_if_full ok d = Some (Inr d1)"
  proof (cases "grow_if_full ok d")
    case None
    then show ?thesis using ins rng by (simp add: VectorInsert_def)
  next
    case (Some r)
    show ?thesis
    proof (cases r)
      case (Inl e)
      then have "grow_if_full ok d = Some (Inl (ERR_NOMEM, d))"
        using Some grow_if_full_cases [OF inv, of ok] by (auto split: if_splits)
      then show ?thesis using ins rng by (simp add: VectorInsert_def)
    next
      case (Inr d1)
      then show ?thesis using Some that by simp
    qed
  qed
  note G = grow_if_full_Inr [OF inv g]
  define a where "a = aItem_v d1"
  define k where "k = nat (sint i)"
  define s where "s = nat (sint (iSize_v d))"
  have s1: "iSize_v d1 = iSize_v d" and len: "sint (iSize_v d) < int (length (aItem_v d1))"
    and cap: "int (length (aItem_v d1)) = sint (iCapacity_v d1)"
    and tk: "take (length (aItem_v d)) a = aItem_v d"
    and c: "calls_v d1 = calls_v d" and p: "pDestroy_v d1 = pDestroy_v d"
    using G unfolding a_def by simp_all
  define A where "A = take k a @ Some x # take (s - k) (drop k a) @ drop (Suc s) a"
  have d': "d' = d1\<lparr>iSize_v := iSize_v d + 1, aItem_v := A\<rparr>"
    using VectorInsert_grown [OF i g s1 len, of x] ins unfolding a_def k_def s_def A_def by simp
  have s0: "0 \<le> sint (iSize_v d)" "int (length (aItem_v d)) = sint (iCapacity_v d)"
    "sint (iSize_v d) \<le> sint (iCapacity_v d)"
    using inv by (simp_all add: vector_inv_def)
  have ks: "k \<le> s" "s < length a" "s \<le> length (aItem_v d)"
    using i len s0 unfolding k_def s_def a_def by linarith+
  have sz: "sint (iSize_v d + 1) = sint (iSize_v d) + 1"
    using len cap by (intro sint_succ [of _ "iCapacity_v d1"]) linarith
  have nsz: "nat (sint (iSize_v d) + 1) = Suc s" using s0 unfolding s_def by linarith
  have tsa: "take s a = take s (aItem_v d)"
  proof -
    have "take s (take (length (aItem_v d)) a) = take s a" using ks by (simp add: min_def)
    then show ?thesis using tk by simp
  qed
  have it: "items_v d = take s a" unfolding items_v_def s_def [symmetric] tsa ..
  have "length (take k a @ Some x # take (s - k) (drop k a)) = Suc s"
    using ks by simp
  then have "take (Suc s) ((take k a @ Some x # take (s - k) (drop k a)) @ drop (Suc s) a)
          = take k a @ Some x # take (s - k) (drop k a)"
    by (rule take_prefix)
  then have tA: "take (Suc s) A = take k a @ Some x # take (s - k) (drop k a)"
    unfolding A_def by (simp only: append_assoc append_Cons)
  have kk: "take k (take s a) = take k a" "drop k (take s a) = take (s - k) (drop k a)"
    using ks by (simp_all add: min_def drop_take)
  have items: "items_v d' = take k (items_v d) @ Some x # drop k (items_v d)"
    unfolding it kk unfolding items_v_def d' by (simp add: sz nsz tA)
  have l1: "length (take k a) = k" and l2: "length (take (s - k) (drop k a)) = s - k"
    and l3: "length (drop (Suc s) a) = length a - Suc s"
    using ks by simp_all
  have L: "length A = length a"
    unfolding A_def length_append length_Cons l1 l2 l3 using ks by linarith
  have "vector_inv d'"
    using len cap s0 unfolding vector_inv_def d' a_def [symmetric]
    by (simp add: sz L)
  then show ?thesis using items sz c p unfolding d' k_def by simp
qed

lemma take_drop_insert:
  "k \<le> length xs \<Longrightarrow>
   take k (take k xs @ y # drop k xs) @ drop (Suc k) (take k xs @ y # drop k xs) = xs"
  by simp

lemma VectorDelete_items:
  assumes inv: "vector_inv d" and i: "0 \<le> sint i" "sint i < sint (iSize_v d)"
  shows "\<exists>d'. VectorDelete (Some d) i bClean = Some (SUCC, Some d')
     \<and> iSize_v d' = iSize_v d - 1
     \<and> items_v d' = take (nat (sint i)) (items_v d) @ drop (Suc (nat (sint i))) (items_v d)
     \<and> calls_v d' = (if bClean then calls_v d @ [(pDestroy_v d, items_v d ! nat (sint i))]
                      else calls_v d)
     \<and> iCapacity_v d' = iCapacity_v d \<and> pDestroy_v d' = pDestroy_v d
     \<and> length (aItem_v d') = length (aItem_v d)"
proof -
  define a where "a = aItem_v d"
  define k where "k = nat (sint i)"
  define s where "s = nat (sint (iSize_v d))"
  have s0: "int (length a) = sint (iCapacity_v d)" "sint (iSize_v d) \<le> sint (iCapacity_v d)"
    using inv by (simp_all add: vector_inv_def a_def)
  have len: "sint (iSize_v d) \<le> int (length (aItem_v d))" using s0 unfolding a_def by linarith
  have ks: "k < s" "s \<le> length a" using i len unfolding k_def s_def a_def by linarith+
  have sz: "sint (iSize_v d - 1) = sint (iSize_v d) - 1" using i by (intro sint_pred) linarith
  have nsz: "nat (sint (iSize_v d) - 1) = s - 1" unfolding s_def by linarith
  let ?A = "take k a @ take (s - Suc k) (drop (Suc k) a) @ drop (s - 1) a"
  have "length (take k a @ take (s - Suc k) (drop (Suc k) a)) = s - 1"
    using ks by simp
  then have "take (s - 1) ((take k a @ take (s - Suc k) (drop (Suc k) a)) @ drop (s - 1) a)
       = take k a @ take (s - Suc k) (drop (Suc k) a)"
    by (rule take_prefix)
  then have "take (s - 1) ?A = take k a @ take (s - Suc k) (drop (Suc k) a)"
    by (simp only: append_assoc)
  moreover have "take k (take s a) = take k a"
    "drop (Suc k) (take s a) = take (s - Suc k) (drop (Suc k) a)"
    using ks by (simp_all add: min_def drop_take)
  moreover have "take s a ! k = a ! k" using ks by simp
  moreover have "length ?A = length a"
  proof -
    have l1: "length (take k a) = k"
      and l2: "length (take (s - Suc k) (drop (Suc k) a)) = s - Suc k"
      and l3: "length (drop (s - 1) a) = length a - (s - 1)"
      using ks by simp_all
    show ?thesis unfolding length_append l1 l2 l3 using ks by linarith
  qed
  ultimately show ?thesis
    unfolding VectorDelete_in_range [OF i len, of bClean] items_v_def
    unfolding a_def [symmetric] k_def [symmetric] s_def [symmetric]
    by (simp add: sz nsz s_def [symmetric])
qed






text \<open>
  The concrete vectors are states the operations reach from \<open>VectorInit\<close>.
\<close>

lemma vec3_built:
  "VectorPushBack True (snd (VectorInit True True True)) 5 =
     Some (SUCC, Some \<lparr>iSize_v = 1, iCapacity_v = 1, aItem_v = [Some 5],
                         pDestroy_v = VectorItemDestroy, calls_v = []\<rparr>)
   \<and> VectorPushBack True (Some \<lparr>iSize_v = 1, iCapacity_v = 1, aItem_v = [Some 5],
                         pDestroy_v = VectorItemDestroy, calls_v = []\<rparr>) 6 =
     Some (SUCC, Some \<lparr>iSize_v = 2, iCapacity_v = 2, aItem_v = [Some 5, Some 6],
                         pDestroy_v = VectorItemDestroy, calls_v = []\<rparr>)
   \<and> VectorSetDestroy (Some \<lparr>iSize_v = 2, iCapacity_v = 2, aItem_v = [Some 5, Some 6],
                         pDestroy_v = VectorItemDestroy, calls_v = []\<rparr>) 1 = (None, Some vec4)
   \<and> VectorPushBack True (Some vec4) 8 = Some (SUCC, Some vec3)"
  by (simp add: VectorPushBack_def VectorInit_def vec3_def vec4_def grow_if_full_def
      VectorReisze_def realloc_def store_def VectorSetDestroy_def DEFAULT_CAPACITY_def
      numeral_2_eq_2)

lemma vector_inv_inv0: "vector_inv d \<Longrightarrow> vector_inv0 d"
  by (simp add: vector_inv_def vector_inv0_def)

lemma vector_inv_vec1: "vector_inv vec1"
  by (simp add: vector_inv_def vec1_def)

lemma vector_inv_vec4: "vector_inv vec4"
  by (simp add: vector_inv_def vec4_def)

lemma insert_shift_laws:
  assumes inv: "vector_inv d" and i: "0 \<le> sint i" "sint i \<le> sint (iSize_v d)"
    and ins: "VectorInsert ok (Some d) x i = Some (SUCC, Some d')"
  shows "VectorGet (Some d') p i = Some (SUCC, Some x)
     \<and> (\<forall>j. sint i < sint j \<and> sint j < sint (iSize_v d') \<longrightarrow>
            VectorGet (Some d') p j = Some (SUCC, aItem_v d ! (nat (sint j) - 1)))
     \<and> (\<forall>j. 0 \<le> sint j \<and> sint j < sint i \<longrightarrow>
            VectorGet (Some d') p j = Some (SUCC, aItem_v d ! nat (sint j)))
     \<and> sint (iSize_v d') = sint (iSize_v d) + 1
     \<and> (\<exists>d''. VectorDelete (Some d') i bClean = Some (SUCC, Some d'')
            \<and> iSize_v d'' = iSize_v d \<and> items_v d'' = items_v d
            \<and> (\<forall>j. VectorGet (Some d'') p j = VectorGet (Some d) p j)
            \<and> calls_v d'' = (if bClean then calls_v d @ [(pDestroy_v d, Some x)] else calls_v d))
     \<and> vector_inv d' \<and> calls_v d' = calls_v d"
proof -
  define k where "k = nat (sint i)"
  define s where "s = nat (sint (iSize_v d))"
  define xs where "xs = items_v d"
  note I = VectorInsert_inv [OF inv i ins]
  have inv': "vector_inv d'" and sz: "sint (iSize_v d') = sint (iSize_v d) + 1"
    and it: "items_v d' = take k xs @ Some x # drop k xs"
    and cl: "calls_v d' = calls_v d" and pd: "pDestroy_v d' = pDestroy_v d"
    using I unfolding k_def xs_def by simp_all
  have s0: "0 \<le> sint (iSize_v d)" "sint (iSize_v d) \<le> int (length (aItem_v d))"
    using inv by (simp_all add: vector_inv_def)
  have len': "sint (iSize_v d') \<le> int (length (aItem_v d'))"
    using inv' by (simp add: vector_inv_def)
  have lxs: "length xs = s" unfolding xs_def items_v_def s_def using s0 by simp
  have ks: "k \<le> s" using i unfolding k_def s_def by linarith
  have xsn: "\<And>m. m < s \<Longrightarrow> xs ! m = aItem_v d ! m"
    unfolding xs_def items_v_def s_def by simp
  have get': "\<And>j. 0 \<le> sint j \<Longrightarrow> sint j < sint (iSize_v d') \<Longrightarrow>
      VectorGet (Some d') p j = Some (SUCC, (take k xs @ Some x # drop k xs) ! nat (sint j))"
  proof -
    fix j :: int32_t assume j: "0 \<le> sint j" "sint j < sint (iSize_v d')"
    have "nat (sint j) < nat (sint (iSize_v d'))" using j by linarith
    then have "items_v d' ! nat (sint j) = aItem_v d' ! nat (sint j)"
      unfolding items_v_def by simp
    then show "VectorGet (Some d') p j = Some (SUCC, (take k xs @ Some x # drop k xs) ! nat (sint j))"
      using VectorGet_in_range [OF j len', of p] it by simp
  qed
  have g1: "VectorGet (Some d') p i = Some (SUCC, Some x)"
  proof -
    have "(take k xs @ Some x # drop k xs) ! k = Some x"
      using ks lxs by (simp add: nth_append)
    then show ?thesis using get' [of i] i sz unfolding k_def by simp
  qed
  have g2: "\<forall>j. sint i < sint j \<and> sint j < sint (iSize_v d') \<longrightarrow>
            VectorGet (Some d') p j = Some (SUCC, aItem_v d ! (nat (sint j) - 1))"
  proof (intro allI impI)
    fix j :: int32_t assume j: "sint i < sint j \<and> sint j < sint (iSize_v d')"
    define m where "m = nat (sint j)"
    have m: "k < m" "m \<le> s" using j i sz unfolding m_def k_def s_def by linarith+
    obtain n where mn: "m = Suc (k + n)" using m less_imp_Suc_add by blast
    have "(take k xs @ Some x # drop k xs) ! m = xs ! (m - 1)"
      using ks lxs m unfolding mn by (simp add: nth_append)
    moreover have "xs ! (m - 1) = aItem_v d ! (m - 1)" using m by (intro xsn) linarith
    ultimately show "VectorGet (Some d') p j = Some (SUCC, aItem_v d ! (nat (sint j) - 1))"
      using get' [of j] j i unfolding m_def by simp
  qed
  have g3: "\<forall>j. 0 \<le> sint j \<and> sint j < sint i \<longrightarrow>
            VectorGet (Some d') p j = Some (SUCC, aItem_v d ! nat (sint j))"
  proof (intro allI impI)
    fix j :: int32_t assume j: "0 \<le> sint j \<and> sint j < sint i"
    define m where "m = nat (sint j)"
    have m: "m < k" using j unfolding m_def k_def by linarith
    then have "(take k xs @ Some x # drop k xs) ! m = xs ! m"
      using ks lxs by (simp add: nth_append)
    moreover have "xs ! m = aItem_v d ! m" using m ks by (intro xsn) linarith
    ultimately show "VectorGet (Some d') p j = Some (SUCC, aItem_v d ! nat (sint j))"
      using get' [of j] j i sz unfolding m_def by simp
  qed
  have i': "0 \<le> sint i" "sint i < sint (iSize_v d')" using i sz by linarith+
  obtain d'' where del: "VectorDelete (Some d') i bClean = Some (SUCC, Some d'')"
    and sz'': "iSize_v d'' = iSize_v d' - 1"
    and it'': "items_v d'' = take k (items_v d') @ drop (Suc k) (items_v d')"
    and ln'': "length (aItem_v d'') = length (aItem_v d')"
    and cl'': "calls_v d'' = (if bClean then calls_v d' @ [(pDestroy_v d', items_v d' ! k)]
                             else calls_v d')"
    using VectorDelete_items [OF inv' i', of bClean] unfolding k_def by blast
  have "items_v d' ! k = Some x" unfolding it using ks lxs by (simp add: nth_append)
  then have e4: "calls_v d'' = (if bClean then calls_v d @ [(pDestroy_v d, Some x)] else calls_v d)"
    using cl'' cl pd by simp
  have "iSize_v d' = iSize_v d + 1"
  proof -
    have "sint (iSize_v d') = sint (iSize_v d + 1)"
      using sz sint_succ [of "iSize_v d" "iSize_v d'"] by linarith
    then show ?thesis using word_eq_iff_signed by blast
  qed
  then have e1: "iSize_v d'' = iSize_v d" using sz'' by simp
  have e2: "items_v d'' = items_v d"
    unfolding it'' it xs_def [symmetric] using ks lxs by (simp add: take_drop_insert)
  have e3: "\<forall>j. VectorGet (Some d'') p j = VectorGet (Some d) p j"
  proof
    fix j :: int32_t
    show "VectorGet (Some d'') p j = VectorGet (Some d) p j"
    proof (cases "0 \<le> sint j \<and> sint j < sint (iSize_v d)")
      case False
      then have o: "sint j < 0 \<or> sint (iSize_v d) \<le> sint j" by linarith
      then have "sint j < 0 \<or> sint (iSize_v d'') \<le> sint j" unfolding e1 .
      then have "VectorGet (Some d'') p j = Some (ERR_IDX, p)" by (rule VectorGet_out_of_range)
      moreover have "VectorGet (Some d) p j = Some (ERR_IDX, p)"
        using o by (rule VectorGet_out_of_range)
      ultimately show ?thesis by simp
    next
      case True
      then have n: "nat (sint j) < nat (sint (iSize_v d))" by linarith
      have "aItem_v d'' ! nat (sint j) = items_v d'' ! nat (sint j)"
        unfolding items_v_def e1 using n by simp
      also have "\<dots> = items_v d ! nat (sint j)" using e2 by simp
      also have "\<dots> = aItem_v d ! nat (sint j)" unfolding items_v_def using n by simp
      finally have eq: "aItem_v d'' ! nat (sint j) = aItem_v d ! nat (sint j)" .
      have "sint (iSize_v d'') \<le> int (length (aItem_v d''))"
        unfolding e1 ln'' using len' sz by linarith
      then have "VectorGet (Some d'') p j = Some (SUCC, aItem_v d'' ! nat (sint j))"
        using True e1 by (intro VectorGet_in_range) simp_all
      moreover have "VectorGet (Some d) p j = Some (SUCC, aItem_v d ! nat (sint j))"
        using True s0 by (intro VectorGet_in_range) simp_all
      ultimately show ?thesis using eq by simp
    qed
  qed
  from del e1 e2 e3 e4
  have "\<exists>d''. VectorDelete (Some d') i bClean = Some (SUCC, Some d'')
            \<and> iSize_v d'' = iSize_v d \<and> items_v d'' = items_v d
            \<and> (\<forall>j. VectorGet (Some d'') p j = VectorGet (Some d) p j)
            \<and> calls_v d'' = (if bClean then calls_v d @ [(pDestroy_v d, Some x)] else calls_v d)"
    by blast
  with g1 g2 g3 sz inv' cl show ?thesis by blast
qed

text \<open>
  C7 (right-shift law of insert; delete is its inverse), as amended. For a vector that
  satisfies the invariant and a valid index \<open>i\<close> (from 0 to the size inclusive):
  \<open>VectorInsert\<close> of \<open>x\<close> at \<open>i\<close> returns \<open>ERR_NOMEM\<close> and leaves the vector
  unchanged when the array is full and its doubling reallocation fails (the allocator
  refuses, or the doubled capacity is no \<open>int32_t\<close>); in every other case it
  succeeds, and then: get at \<open>i\<close> yields \<open>x\<close>; get at every \<open>j\<close> with
  \<open>i < j <\<close> new size yields the cell that was at \<open>j - 1\<close>; get at every \<open>j < i\<close>
  yields the cell that was at \<open>j\<close>; the size grows by one, no destroy callback is
  called and the invariant still holds; and a delete at \<open>i\<close> succeeds, restores the
  size and the sequence of items, so that every get answers as before the insert, its
  only other effect being, with cleanup, one call of the destroy callback on \<open>x\<close>.
\<close>

theorem vector_insert_shift_delete:
  assumes inv: "vector_inv d" and i: "0 \<le> sint i" "sint i \<le> sint (iSize_v d)"
  shows
  "(iSize_v d = iCapacity_v d \<and> \<not> (ok \<and> 0 \<le> sint (iCapacity_v d * 2)) \<longrightarrow>
      VectorInsert ok (Some d) x i = Some (ERR_NOMEM, Some d))
 \<and> (iSize_v d \<noteq> iCapacity_v d \<or> (ok \<and> 0 \<le> sint (iCapacity_v d * 2)) \<longrightarrow>
      (\<exists>d'. VectorInsert ok (Some d) x i = Some (SUCC, Some d')
         \<and> VectorGet (Some d') p i = Some (SUCC, Some x)
         \<and> (\<forall>j. sint i < sint j \<and> sint j < sint (iSize_v d') \<longrightarrow>
                VectorGet (Some d') p j = Some (SUCC, aItem_v d ! (nat (sint j) - 1)))
         \<and> (\<forall>j. 0 \<le> sint j \<and> sint j < sint i \<longrightarrow>
                VectorGet (Some d') p j = Some (SUCC, aItem_v d ! nat (sint j)))
         \<and> sint (iSize_v d') = sint (iSize_v d) + 1
         \<and> (\<exists>d''. VectorDelete (Some d') i bClean = Some (SUCC, Some d'')
                \<and> iSize_v d'' = iSize_v d \<and> items_v d'' = items_v d
                \<and> (\<forall>j. VectorGet (Some d'') p j = VectorGet (Some d) p j)
                \<and> calls_v d'' =
                    (if bClean then calls_v d @ [(pDestroy_v d, Some x)] else calls_v d))
         \<and> vector_inv d' \<and> calls_v d' = calls_v d))"
proof -
  have rng: "\<not> (sint i < 0 \<or> sint (iSize_v d) < sint i)" using i by linarith
  have A: "iSize_v d = iCapacity_v d \<and> \<not> (ok \<and> 0 \<le> sint (iCapacity_v d * 2)) \<longrightarrow>
      VectorInsert ok (Some d) x i = Some (ERR_NOMEM, Some d)"
  proof
    assume "iSize_v d = iCapacity_v d \<and> \<not> (ok \<and> 0 \<le> sint (iCapacity_v d * 2))"
    then have "grow_if_full ok d = Some (Inl (ERR_NOMEM, d))"
      using grow_if_full_cases [OF inv, of ok] by auto
    then show "VectorInsert ok (Some d) x i = Some (ERR_NOMEM, Some d)"
      using rng by (simp add: VectorInsert_def)
  qed
  have B: "iSize_v d \<noteq> iCapacity_v d \<or> (ok \<and> 0 \<le> sint (iCapacity_v d * 2)) \<longrightarrow>
      (\<exists>d'. VectorInsert ok (Some d) x i = Some (SUCC, Some d')
         \<and> VectorGet (Some d') p i = Some (SUCC, Some x)
         \<and> (\<forall>j. sint i < sint j \<and> sint j < sint (iSize_v d') \<longrightarrow>
                VectorGet (Some d') p j = Some (SUCC, aItem_v d ! (nat (sint j) - 1)))
         \<and> (\<forall>j. 0 \<le> sint j \<and> sint j < sint i \<longrightarrow>
                VectorGet (Some d') p j = Some (SUCC, aItem_v d ! nat (sint j)))
         \<and> sint (iSize_v d') = sint (iSize_v d) + 1
         \<and> (\<exists>d''. VectorDelete (Some d') i bClean = Some (SUCC, Some d'')
                \<and> iSize_v d'' = iSize_v d \<and> items_v d'' = items_v d
                \<and> (\<forall>j. VectorGet (Some d'') p j = VectorGet (Some d) p j)
                \<and> calls_v d'' =
                    (if bClean then calls_v d @ [(pDestroy_v d, Some x)] else calls_v d))
         \<and> vector_inv d' \<and> calls_v d' = calls_v d)"
  proof
    assume c: "iSize_v d \<noteq> iCapacity_v d \<or> (ok \<and> 0 \<le> sint (iCapacity_v d * 2))"
    then obtain d1 where g: "grow_if_full ok d = Some (Inr d1)"
      using grow_if_full_cases [OF inv, of ok] by (auto split: if_splits)
    note G = grow_if_full_Inr [OF inv g]
    have s1: "iSize_v d1 = iSize_v d" and len: "sint (iSize_v d) < int (length (aItem_v d1))"
      using G by simp_all
    obtain d' where ins: "VectorInsert ok (Some d) x i = Some (SUCC, Some d')"
      using VectorInsert_grown [OF i g s1 len, of x] by blast
    note L = insert_shift_laws [OF inv i ins, of p bClean]
    show "\<exists>d'. VectorInsert ok (Some d) x i = Some (SUCC, Some d')
         \<and> VectorGet (Some d') p i = Some (SUCC, Some x)
         \<and> (\<forall>j. sint i < sint j \<and> sint j < sint (iSize_v d') \<longrightarrow>
                VectorGet (Some d') p j = Some (SUCC, aItem_v d ! (nat (sint j) - 1)))
         \<and> (\<forall>j. 0 \<le> sint j \<and> sint j < sint i \<longrightarrow>
                VectorGet (Some d') p j = Some (SUCC, aItem_v d ! nat (sint j)))
         \<and> sint (iSize_v d') = sint (iSize_v d) + 1
         \<and> (\<exists>d''. VectorDelete (Some d') i bClean = Some (SUCC, Some d'')
                \<and> iSize_v d'' = iSize_v d \<and> items_v d'' = items_v d
                \<and> (\<forall>j. VectorGet (Some d'') p j = VectorGet (Some d) p j)
                \<and> calls_v d'' =
                    (if bClean then calls_v d @ [(pDestroy_v d, Some x)] else calls_v d))
         \<and> vector_inv d' \<and> calls_v d' = calls_v d"
      using ins L by (intro exI [of _ d']) (rule conjI)
  qed
  from A B show ?thesis by (rule conjI)
qed

lemma vec1_built:
  "VectorPushBack True (snd (VectorInit True True True)) 7 = Some (SUCC, Some vec1)"
  by (simp add: VectorPushBack_def VectorInit_def vec1_def grow_if_full_def store_def
      DEFAULT_CAPACITY_def)

theorem vector_insert_shift_delete_witness:
  "vector_inv vec4 \<and> 0 \<le> sint (1 :: int32_t) \<and> sint (1 :: int32_t) \<le> sint (iSize_v vec4)
   \<and> iSize_v vec4 = iCapacity_v vec4 \<and> 0 \<le> sint (iCapacity_v vec4 * 2)
   \<and> VectorInsert True (Some vec4) 9 1 =
        Some (SUCC, Some (vec4\<lparr>iSize_v := 3, iCapacity_v := 4,
                                aItem_v := [Some 5, Some 9, Some 6, None]\<rparr>))
   \<and> VectorGet (Some (vec4\<lparr>iSize_v := 3, iCapacity_v := 4,
                                aItem_v := [Some 5, Some 9, Some 6, None]\<rparr>)) None 1
        = Some (SUCC, Some 9)
   \<and> VectorGet (Some (vec4\<lparr>iSize_v := 3, iCapacity_v := 4,
                                aItem_v := [Some 5, Some 9, Some 6, None]\<rparr>)) None 2
        = Some (SUCC, Some 6)
   \<and> VectorGet (Some (vec4\<lparr>iSize_v := 3, iCapacity_v := 4,
                                aItem_v := [Some 5, Some 9, Some 6, None]\<rparr>)) None 0
        = Some (SUCC, Some 5)
   \<and> (\<exists>d''. VectorDelete (Some (vec4\<lparr>iSize_v := 3, iCapacity_v := 4,
                                aItem_v := [Some 5, Some 9, Some 6, None]\<rparr>)) 1 True
                 = Some (SUCC, Some d'')
          \<and> iSize_v d'' = 2 \<and> items_v d'' = [Some 5, Some 6] \<and> calls_v d'' = [(1, Some 9)])
   \<and> vector_inv vec1 \<and> sint (1 :: int32_t) \<le> sint (iSize_v vec1)
   \<and> (\<exists>d'. VectorInsert True (Some vec1) 9 1 = Some (SUCC, Some d')
          \<and> VectorGet (Some d') None 1 = Some (SUCC, Some 9)
          \<and> VectorGet (Some d') None 0 = Some (SUCC, Some 7))
   \<and> VectorInsert False (Some vec1) 9 1 = Some (ERR_NOMEM, Some vec1)"
proof -
  let ?d' = "vec4\<lparr>iSize_v := 3, iCapacity_v := 4, aItem_v := [Some 5, Some 9, Some 6, None]\<rparr>"
  have i: "0 \<le> sint (1 :: int32_t)" "sint (1 :: int32_t) \<le> sint (iSize_v vec4)"
    by (simp_all add: vec4_def)
  have i1: "sint (1 :: int32_t) \<le> sint (iSize_v vec1)" by (simp add: vec1_def)
  have full: "iSize_v vec4 = iCapacity_v vec4" "0 \<le> sint (iCapacity_v vec4 * 2)"
    by (simp_all add: vec4_def)
  have full1: "iSize_v vec1 = iCapacity_v vec1" "0 \<le> sint (iCapacity_v vec1 * 2)"
    by (simp_all add: vec1_def)
  have ins: "VectorInsert True (Some vec4) 9 1 = Some (SUCC, Some ?d')"
    by (simp add: VectorInsert_def grow_if_full_def VectorReisze_def realloc_def vec4_def
        memmove_def store_def Let_def)
  note T = vector_insert_shift_delete [OF vector_inv_vec4 i, of True 9 None True]
  have "iSize_v vec4 \<noteq> iCapacity_v vec4 \<or> (True \<and> 0 \<le> sint (iCapacity_v vec4 * 2))"
    using full by simp
  with T obtain d' where d': "VectorInsert True (Some vec4) 9 1 = Some (SUCC, Some d')"
    and g1: "VectorGet (Some d') None 1 = Some (SUCC, Some 9)"
    and g2: "\<forall>j. sint (1 :: int32_t) < sint j \<and> sint j < sint (iSize_v d') \<longrightarrow>
                VectorGet (Some d') None j = Some (SUCC, aItem_v vec4 ! (nat (sint j) - 1))"
    and g3: "\<forall>j. 0 \<le> sint j \<and> sint j < sint (1 :: int32_t) \<longrightarrow>
                VectorGet (Some d') None j = Some (SUCC, aItem_v vec4 ! nat (sint j))"
    and dl: "\<exists>d''. VectorDelete (Some d') 1 True = Some (SUCC, Some d'')
                \<and> iSize_v d'' = iSize_v vec4 \<and> items_v d'' = items_v vec4
                \<and> (\<forall>j. VectorGet (Some d'') None j = VectorGet (Some vec4) None j)
                \<and> calls_v d'' =
                    (if True then calls_v vec4 @ [(pDestroy_v vec4, Some 9)] else calls_v vec4)"
    by blast
  have e: "d' = ?d'" using d' ins by simp
  have a: "VectorGet (Some ?d') None 1 = Some (SUCC, Some 9)" using g1 unfolding e .
  have "sint (1 :: int32_t) < sint (2 :: int32_t) \<and> sint (2 :: int32_t) < sint (iSize_v ?d')"
    by simp
  then have "VectorGet (Some ?d') None 2 = Some (SUCC, aItem_v vec4 ! (nat (sint (2 :: int32_t)) - 1))"
    using g2 unfolding e by blast
  then have b: "VectorGet (Some ?d') None 2 = Some (SUCC, Some 6)" by (simp add: vec4_def)
  have "0 \<le> sint (0 :: int32_t) \<and> sint (0 :: int32_t) < sint (1 :: int32_t)" by simp
  then have "VectorGet (Some ?d') None 0 = Some (SUCC, aItem_v vec4 ! nat (sint (0 :: int32_t)))"
    using g3 unfolding e by blast
  then have c: "VectorGet (Some ?d') None 0 = Some (SUCC, Some 5)" by (simp add: vec4_def)
  have dd: "\<exists>d''. VectorDelete (Some ?d') 1 True = Some (SUCC, Some d'')
          \<and> iSize_v d'' = 2 \<and> items_v d'' = [Some 5, Some 6] \<and> calls_v d'' = [(1, Some 9)]"
    using dl unfolding e by (simp add: vec4_def items_v_def) blast
  note T1 = vector_insert_shift_delete [OF vector_inv_vec1 i(1) i1, of True 9 None False]
  have "iSize_v vec1 \<noteq> iCapacity_v vec1 \<or> (True \<and> 0 \<le> sint (iCapacity_v vec1 * 2))"
    using full1 by simp
  with T1 obtain e' where e': "VectorInsert True (Some vec1) 9 1 = Some (SUCC, Some e')"
    and h1: "VectorGet (Some e') None 1 = Some (SUCC, Some 9)"
    and h3: "\<forall>j. 0 \<le> sint j \<and> sint j < sint (1 :: int32_t) \<longrightarrow>
                VectorGet (Some e') None j = Some (SUCC, aItem_v vec1 ! nat (sint j))"
    by blast
  have "0 \<le> sint (0 :: int32_t) \<and> sint (0 :: int32_t) < sint (1 :: int32_t)" by simp
  then have "VectorGet (Some e') None 0 = Some (SUCC, aItem_v vec1 ! nat (sint (0 :: int32_t)))"
    using h3 by blast
  then have h0: "VectorGet (Some e') None 0 = Some (SUCC, Some 7)" by (simp add: vec1_def)
  have f: "\<exists>d'. VectorInsert True (Some vec1) 9 1 = Some (SUCC, Some d')
          \<and> VectorGet (Some d') None 1 = Some (SUCC, Some 9)
          \<and> VectorGet (Some d') None 0 = Some (SUCC, Some 7)"
    using e' h1 h0 by blast
  note T2 = vector_insert_shift_delete [OF vector_inv_vec1 i(1) i1, of False 9 None False]
  have g: "VectorInsert False (Some vec1) 9 1 = Some (ERR_NOMEM, Some vec1)"
    using T2 full1 by simp
  from vector_inv_vec4 i full ins a b c dd vector_inv_vec1 i1 f g show ?thesis by blast
qed

text \<open>
  C7 as stated covers every initialized vector and every valid index. On the full
  vector \<open>vec1\<close> an insert at the valid index 1 whose reallocation fails returns
  \<open>ERR_NOMEM\<close>, and get at 1 then returns \<open>ERR_IDX\<close>, not the item. A
  \<open>VectorResize\<close> of \<open>vec3\<close> to 2 without cleanup succeeds and leaves the size at 3
  over a block of 2 cells; an insert at the valid index 1 then moves cells outside the
  block and has no defined result. A \<open>VectorResize\<close> of \<open>vec1\<close> to 0 leaves a block
  of no cells, whose doubling is again a block of no cells; an insert at the valid
  index 0 then writes outside the block.
\<close>

theorem vector_insert_then_get_fails:
  "0 \<le> sint (1 :: int32_t) \<and> sint (1 :: int32_t) \<le> sint (iSize_v vec1)
   \<and> VectorInsert False (Some vec1) 9 1 = Some (ERR_NOMEM, Some vec1)
   \<and> VectorGet (Some vec1) None 1 = Some (ERR_IDX, None)
   \<and> VectorResize True (Some vec3) 2 False = Some (SUCC, Some vec5)
   \<and> sint (1 :: int32_t) \<le> sint (iSize_v vec5)
   \<and> VectorInsert True (Some vec5) 9 1 = None
   \<and> VectorResize True (Some vec1) 0 True = Some (SUCC, Some vec6)
   \<and> 0 \<le> sint (0 :: int32_t) \<and> sint (0 :: int32_t) \<le> sint (iSize_v vec6)
   \<and> VectorInsert True (Some vec6) 9 0 = None"
proof -
  have a: "VectorInsert False (Some vec1) 9 1 = Some (ERR_NOMEM, Some vec1)"
    by (simp add: VectorInsert_def grow_if_full_def VectorReisze_def realloc_def vec1_def)
  have b: "VectorGet (Some vec1) None 1 = Some (ERR_IDX, None)"
    by (simp add: VectorGet_def vec1_def)
  have c: "VectorResize True (Some vec3) 2 False = Some (SUCC, Some vec5)"
    by (simp add: VectorResize_def VectorReisze_def realloc_def vec3_def vec5_def)
  have d: "VectorInsert True (Some vec5) 9 1 = None"
    by (simp add: VectorInsert_def grow_if_full_def vec5_def memmove_def Let_def)
  have "destroy_trailing (call_destroy vec1 (Some 7)) 1 = Some (call_destroy vec1 (Some 7))"
    by (subst destroy_trailing.simps) (simp add: vec1_def call_destroy_def)
  then have "destroy_trailing vec1 0 = Some (call_destroy vec1 (Some 7))"
    by (subst destroy_trailing.simps) (simp add: vec1_def load_def)
  then have "destroy_trailing vec1 0 = Some (vec1\<lparr>calls_v := [(VectorItemDestroy, Some 7)]\<rparr>)"
    by (simp add: vec1_def call_destroy_def)
  then have e: "VectorResize True (Some vec1) 0 True = Some (SUCC, Some vec6)"
    by (simp add: VectorResize_def VectorReisze_def realloc_def vec1_def vec6_def)
  have f: "VectorInsert True (Some vec6) 9 0 = None"
    by (simp add: VectorInsert_def grow_if_full_def VectorReisze_def realloc_def vec6_def
        store_def Let_def)
  have g: "0 \<le> sint (1 :: int32_t)" "sint (1 :: int32_t) \<le> sint (iSize_v vec1)"
    "sint (1 :: int32_t) \<le> sint (iSize_v vec5)"
    "0 \<le> sint (0 :: int32_t)" "sint (0 :: int32_t) \<le> sint (iSize_v vec6)"
    by (simp_all add: vec1_def vec5_def vec6_def)
  from a b c d e f g show ?thesis by blast
qed

text \<open>
  C8 (resize with cleanup), as amended. For a vector that satisfies the invariant of
  the specification (size between 0 and capacity, array of exactly capacity cells) and
  a new capacity \<open>n \<ge> 0\<close>: if \<open>n\<close> is below the size, \<open>VectorResize\<close> with
  \<open>clean = true\<close> calls the installed destroy callback on the cells at positions
  \<open>n\<close> up to size - 1, once each and in this order, sets the size to \<open>n\<close>, and on a
  successful reallocation sets the capacity to \<open>n\<close> and keeps the first \<open>n\<close> cells
  (on a failed one it returns \<open>ERR_NOMEM\<close> and keeps capacity and array). If \<open>n\<close>
  is at least the size, no callback is called, the size and the items stay, and on
  success the capacity is \<open>n\<close>.
\<close>

theorem vector_resize_clean:
  assumes inv: "vector_inv0 d" and n: "0 \<le> sint n"
  shows
  "(sint n < sint (iSize_v d) \<longrightarrow>
      VectorResize ok (Some d) n True =
        Some (if ok then SUCC else ERR_NOMEM,
              Some (d\<lparr>iSize_v := n,
                     iCapacity_v := (if ok then n else iCapacity_v d),
                     aItem_v := (if ok then take (nat (sint n)) (aItem_v d) else aItem_v d),
                     calls_v := calls_v d @ map (\<lambda>k. (pDestroy_v d, aItem_v d ! k))
                                  [nat (sint n)..<nat (sint (iSize_v d))]\<rparr>)))
 \<and> (sint (iSize_v d) \<le> sint n \<longrightarrow>
      (\<exists>d'. VectorResize ok (Some d) n bClean = Some (if ok then SUCC else ERR_NOMEM, Some d')
         \<and> calls_v d' = calls_v d \<and> iSize_v d' = iSize_v d \<and> items_v d' = items_v d
         \<and> iCapacity_v d' = (if ok then n else iCapacity_v d)
         \<and> int (length (aItem_v d')) = sint (iCapacity_v d')))"
proof -
  define a where "a = aItem_v d"
  have s0: "0 \<le> sint (iSize_v d)" "sint (iSize_v d) \<le> int (length a)"
    "int (length a) = sint (iCapacity_v d)"
    using inv by (simp_all add: vector_inv0_def a_def)
  have A: "sint n < sint (iSize_v d) \<longrightarrow>
      VectorResize ok (Some d) n True =
        Some (if ok then SUCC else ERR_NOMEM,
              Some (d\<lparr>iSize_v := n,
                     iCapacity_v := (if ok then n else iCapacity_v d),
                     aItem_v := (if ok then take (nat (sint n)) (aItem_v d) else aItem_v d),
                     calls_v := calls_v d @ map (\<lambda>k. (pDestroy_v d, aItem_v d ! k))
                                  [nat (sint n)..<nat (sint (iSize_v d))]\<rparr>))"
  proof
    assume lt: "sint n < sint (iSize_v d)"
    have dt: "destroy_trailing d n = Some (d\<lparr>calls_v := calls_v d @
              map (\<lambda>j. (pDestroy_v d, aItem_v d ! j)) [nat (sint n)..<nat (sint (iSize_v d))]\<rparr>)"
      using n lt s0 unfolding a_def by (intro destroy_trailing_eq) linarith+
    have "nat (sint n) \<le> length a" using lt s0 by linarith
    then have ra: "realloc ok a n = (if ok then Some (take (nat (sint n)) a) else None)"
      using n by (simp add: realloc_def)
    show "VectorResize ok (Some d) n True =
        Some (if ok then SUCC else ERR_NOMEM,
              Some (d\<lparr>iSize_v := n,
                     iCapacity_v := (if ok then n else iCapacity_v d),
                     aItem_v := (if ok then take (nat (sint n)) (aItem_v d) else aItem_v d),
                     calls_v := calls_v d @ map (\<lambda>k. (pDestroy_v d, aItem_v d ! k))
                                  [nat (sint n)..<nat (sint (iSize_v d))]\<rparr>))"
      using lt dt ra unfolding a_def
      by (cases ok) (simp_all add: VectorResize_def VectorReisze_def)
  qed
  have B: "sint (iSize_v d) \<le> sint n \<longrightarrow>
      (\<exists>d'. VectorResize ok (Some d) n bClean = Some (if ok then SUCC else ERR_NOMEM, Some d')
         \<and> calls_v d' = calls_v d \<and> iSize_v d' = iSize_v d \<and> items_v d' = items_v d
         \<and> iCapacity_v d' = (if ok then n else iCapacity_v d)
         \<and> int (length (aItem_v d')) = sint (iCapacity_v d'))"
  proof
    assume ge: "sint (iSize_v d) \<le> sint n"
    then have nlt: "\<not> sint n < sint (iSize_v d)" by linarith
    define A where "A = take (nat (sint n)) a @ replicate (nat (sint n) - length a) None"
    have ra: "realloc ok a n = (if ok then Some A else None)"
      using n by (simp add: realloc_def A_def)
    have lA: "int (length A) = sint n" unfolding A_def using n by simp
    have "take (nat (sint (iSize_v d))) A = take (nat (sint (iSize_v d))) a"
      unfolding A_def using ge s0 by (simp add: min_def)
    then have tA: "items_v (d\<lparr>iCapacity_v := n, aItem_v := A\<rparr>) = items_v d"
      unfolding items_v_def a_def by simp
    have r: "VectorResize ok (Some d) n bClean =
        Some (if ok then SUCC else ERR_NOMEM,
              Some (if ok then d\<lparr>iCapacity_v := n, aItem_v := A\<rparr> else d))"
      using nlt ra unfolding a_def
      by (cases ok) (simp_all add: VectorResize_def VectorReisze_def)
    show "\<exists>d'. VectorResize ok (Some d) n bClean = Some (if ok then SUCC else ERR_NOMEM, Some d')
         \<and> calls_v d' = calls_v d \<and> iSize_v d' = iSize_v d \<and> items_v d' = items_v d
         \<and> iCapacity_v d' = (if ok then n else iCapacity_v d)
         \<and> int (length (aItem_v d')) = sint (iCapacity_v d')"
      unfolding r using tA lA s0 unfolding a_def by (cases ok) simp_all
  qed
  from A B show ?thesis by blast
qed

lemma vector_inv0_vec3: "vector_inv0 vec3"
  by (simp add: vector_inv0_def vec3_def)

theorem vector_resize_clean_witness:
  "vector_inv0 vec3 \<and> 0 \<le> sint (1 :: int32_t) \<and> sint (1 :: int32_t) < sint (iSize_v vec3)
   \<and> VectorResize True (Some vec3) 1 True =
       Some (SUCC, Some \<lparr>iSize_v = 1, iCapacity_v = 1, aItem_v = [Some 5], pDestroy_v = 1,
                           calls_v = [(1, Some 6), (1, Some 8)]\<rparr>)
   \<and> 0 \<le> sint (0 :: int32_t) \<and> sint (0 :: int32_t) < sint (iSize_v vec3)
   \<and> VectorResize True (Some vec3) 0 True =
       Some (SUCC, Some \<lparr>iSize_v = 0, iCapacity_v = 0, aItem_v = [], pDestroy_v = 1,
                           calls_v = [(1, Some 5), (1, Some 6), (1, Some 8)]\<rparr>)
   \<and> VectorResize False (Some vec3) 2 True =
       Some (ERR_NOMEM, Some (vec3\<lparr>iSize_v := 2, calls_v := [(1, Some 8)]\<rparr>))
   \<and> sint (iSize_v vec3) \<le> sint (8 :: int32_t)
   \<and> (\<exists>d'. VectorResize True (Some vec3) 8 True = Some (SUCC, Some d')
         \<and> calls_v d' = [] \<and> iSize_v d' = 3 \<and> iCapacity_v d' = 8
         \<and> items_v d' = [Some 5, Some 6, Some 8])"
proof -
  have n: "0 \<le> sint (1 :: int32_t)" "0 \<le> sint (8 :: int32_t)" "0 \<le> sint (0 :: int32_t)"
    "0 \<le> sint (2 :: int32_t)"
    by simp_all
  have lt: "sint (1 :: int32_t) < sint (iSize_v vec3)" "sint (0 :: int32_t) < sint (iSize_v vec3)"
    "sint (iSize_v vec3) \<le> sint (8 :: int32_t)"
    by (simp_all add: vec3_def)
  have u: "[nat (sint (1 :: int32_t))..<nat (sint (3 :: int32_t))] = [1, 2]"
    "[nat (sint (0 :: int32_t))..<nat (sint (3 :: int32_t))] = [0, 1, 2]"
    "[nat (sint (2 :: int32_t))..<nat (sint (3 :: int32_t))] = [2]"
    by (simp_all add: upt_rec)
  have a: "VectorResize True (Some vec3) 1 True =
       Some (SUCC, Some \<lparr>iSize_v = 1, iCapacity_v = 1, aItem_v = [Some 5], pDestroy_v = 1,
                           calls_v = [(1, Some 6), (1, Some 8)]\<rparr>)"
    using vector_resize_clean [OF vector_inv0_vec3 n(1), of True] u(1) by (simp add: vec3_def)
  have z: "VectorResize True (Some vec3) 0 True =
       Some (SUCC, Some \<lparr>iSize_v = 0, iCapacity_v = 0, aItem_v = [], pDestroy_v = 1,
                           calls_v = [(1, Some 5), (1, Some 6), (1, Some 8)]\<rparr>)"
    using vector_resize_clean [OF vector_inv0_vec3 n(3), of True] u(2) by (simp add: vec3_def)
  have f: "VectorResize False (Some vec3) 2 True =
       Some (ERR_NOMEM, Some (vec3\<lparr>iSize_v := 2, calls_v := [(1, Some 8)]\<rparr>))"
    using vector_resize_clean [OF vector_inv0_vec3 n(4), of False] u(3) by (simp add: vec3_def)
  have b: "\<exists>d'. VectorResize True (Some vec3) 8 True = Some (SUCC, Some d')
         \<and> calls_v d' = [] \<and> iSize_v d' = 3 \<and> iCapacity_v d' = 8
         \<and> items_v d' = [Some 5, Some 6, Some 8]"
    using vector_resize_clean [OF vector_inv0_vec3 n(2), of True True]
    by (simp add: vec3_def items_v_def) blast
  from vector_inv0_vec3 n(1) lt(1) a n(3) lt(2) z f lt(3) b show ?thesis by blast
qed

text \<open>
  C8 as stated covers every initialized vector and every new capacity below the size.
  With the new capacity -1 the cleanup loop of \<open>VectorResize\<close> starts at the cell of
  index -1, which is outside the array of \<open>vec1\<close>: the call has no defined result. A
  \<open>VectorResize\<close> of \<open>vec3\<close> to 2 without cleanup succeeds and leaves the size at 3
  over a block of 2 cells; a \<open>VectorResize\<close> to 1 with cleanup then reads the cell of
  index 2 outside that block.
\<close>

theorem vector_resize_clean_undefined:
  "sint (- 1 :: int32_t) < sint (iSize_v vec1)
   \<and> VectorResize True (Some vec1) (- 1) True = None
   \<and> VectorResize True (Some vec3) 2 False = Some (SUCC, Some vec5)
   \<and> sint (1 :: int32_t) < sint (iSize_v vec5)
   \<and> VectorResize True (Some vec5) 1 True = None"
proof -
  have "destroy_trailing vec1 (- 1) = None"
    by (subst destroy_trailing.simps) (simp add: vec1_def load_def)
  then have a: "VectorResize True (Some vec1) (- 1) True = None"
    by (simp add: VectorResize_def VectorReisze_def vec1_def)
  have c: "VectorResize True (Some vec3) 2 False = Some (SUCC, Some vec5)"
    by (simp add: VectorResize_def VectorReisze_def realloc_def vec3_def vec5_def)
  have "destroy_trailing (call_destroy vec5 (Some 6)) 2 = None"
    by (subst destroy_trailing.simps) (simp add: vec5_def load_def call_destroy_def)
  then have "destroy_trailing vec5 1 = None"
    by (subst destroy_trailing.simps) (simp add: vec5_def load_def)
  then have d: "VectorResize True (Some vec5) 1 True = None"
    by (simp add: VectorResize_def VectorReisze_def vec5_def)
  have g: "sint (- 1 :: int32_t) < sint (iSize_v vec1)" "sint (1 :: int32_t) < sint (iSize_v vec5)"
    by (simp_all add: vec1_def vec5_def)
  from a c d g show ?thesis by blast
qed

section \<open>Singly linked list\<close>

subsection \<open>Model\<close>

text \<open>
  List nodes live in a store: a map from addresses to nodes. An address that holds no
  node (never allocated, or freed) maps to \<open>None\<close>. A node pointer is an
  \<open>addr option\<close>, \<open>None\<close> being the null pointer. Following the pointer of a node
  that the store does not hold (a null or dangling pointer) has no defined result.

  The declarations of \<open>singly_linked_list.h\<close> are not among the sources. The fields
  are those the code uses: \<open>pItem\<close> and \<open>pNext\<close> of a node; \<open>pHead\<close>, \<open>pTail\<close>,
  \<open>iSize\<close>, \<open>compare\<close> and \<open>destroy\<close> of the list. The counter \<open>iSize\<close> is an
  integer; no theorem below takes it near the bounds of a machine type.
\<close>

type_synonym addr = nat

record SinglyLinkedNode =
  pItem :: Item
  pNext :: "addr option"

type_synonym node_heap = "addr \<Rightarrow> SinglyLinkedNode option"

record SinglyLinkedList =
  pHead :: "addr option"
  pTail :: "addr option"
  iSize :: int
  compare :: "Item \<Rightarrow> Item \<Rightarrow> int"
  destroy :: destroy_fn

text \<open>The null item pointer that \<open>SLListRemove\<close> and \<open>SLListPop\<close> return for "not found".\<close>

definition NULL :: Item where
  "NULL = 0"

definition SLListCompare :: "Item \<Rightarrow> Item \<Rightarrow> int" where
  "SLListCompare pSrc pTge =
     (if pSrc = pTge then 0 else if pSrc > pTge then 1 else - 1)"

definition SLListDestroy :: destroy_fn where
  "SLListDestroy = 0"

definition SLListInit :: SinglyLinkedList where
  "SLListInit = \<lparr>pHead = None, pTail = None, iSize = 0,
                 compare = SLListCompare, destroy = SLListDestroy\<rparr>"

text \<open>
  \<open>malloc\<close> is an input of the model: the argument \<open>new\<close> of \<open>SLListAppend\<close> and
  \<open>SLListInsert\<close> is the pointer the allocator returns (\<open>None\<close> when it fails). An
  allocator returns an address that holds no live node.

  Each operation returns its C result together with the store and the list structure
  after the call.
\<close>

definition SLListAppend ::
  "addr option \<Rightarrow> node_heap \<Rightarrow> SinglyLinkedList \<Rightarrow> Item
     \<Rightarrow> (addr option \<times> node_heap \<times> SinglyLinkedList) option" where
  "SLListAppend new h self item =
     (case new of
        None \<Rightarrow> Some (None, h, self)
      | Some n \<Rightarrow>
          let h1 = h(n \<mapsto> \<lparr>pItem = item, pNext = None\<rparr>) in
          (case pHead self of
             None \<Rightarrow>
               Some (new, h1, self\<lparr>pHead := new, pTail := new, iSize := iSize self + 1\<rparr>)
           | Some _ \<Rightarrow>
               (case pTail self of
                  None \<Rightarrow> None
                | Some t \<Rightarrow>
                    (case h1 t of
                       None \<Rightarrow> None
                     | Some tn \<Rightarrow>
                         Some (new, h1(t \<mapsto> tn\<lparr>pNext := new\<rparr>),
                               self\<lparr>pTail := new, iSize := iSize self + 1\<rparr>)))))"

text \<open>
  The \<open>for\<close> loop of \<open>SLListInsert\<close> and \<open>SLListPop\<close>: \<open>idx\<close> steps from the head,
  keeping the predecessor.
\<close>

fun walk :: "node_heap \<Rightarrow> addr option \<Rightarrow> addr option \<Rightarrow> nat \<Rightarrow> (addr option \<times> addr option) option" where
  "walk h pred cur 0 = Some (pred, cur)"
| "walk h pred cur (Suc n) =
     (case cur of
        None \<Rightarrow> None
      | Some c \<Rightarrow> (case h c of None \<Rightarrow> None | Some nd \<Rightarrow> walk h cur (pNext nd) n))"

text \<open>
  The index \<open>idx\<close> is an \<open>unsigned long\<close>; comparing it with the counter converts the
  counter to \<open>unsigned long\<close> (64 bits).
\<close>

definition as_ulong :: "int \<Rightarrow> int" where
  "as_ulong x = x mod 2 ^ 64"

definition SLListInsert ::
  "addr option \<Rightarrow> node_heap \<Rightarrow> SinglyLinkedList \<Rightarrow> nat \<Rightarrow> Item
     \<Rightarrow> (addr option \<times> node_heap \<times> SinglyLinkedList) option" where
  "SLListInsert new h self idx item =
     (if int idx \<le> as_ulong (iSize self)
      then do {
        (pred, succ) \<leftarrow> walk h None (pHead self) idx;
        (case new of
           None \<Rightarrow> Some (None, h, self)
         | Some n \<Rightarrow>
             let h1 = h(n \<mapsto> \<lparr>pItem = item, pNext = succ\<rparr>) in
             (case pred of
                Some p \<Rightarrow>
                  (case h1 p of
                     None \<Rightarrow> None
                   | Some pn \<Rightarrow>
                       Some (new, h1(p \<mapsto> pn\<lparr>pNext := new\<rparr>),
                             self\<lparr>iSize := iSize self + 1\<rparr>))
              | None \<Rightarrow> Some (new, h1, self\<lparr>pHead := new, iSize := iSize self + 1\<rparr>)))
      }
      else Some (None, h, self))"

text \<open>
  The part shared by \<open>SLListRemove\<close> and \<open>SLListPop\<close> once the node \<open>curr\<close> (here \<open>c\<close>) is found:
  read its item and successor, free it, link the predecessor (or the head) to the
  successor, decrement the counter.
\<close>

definition unlink ::
  "node_heap \<Rightarrow> SinglyLinkedList \<Rightarrow> addr option \<Rightarrow> addr
     \<Rightarrow> (Item \<times> node_heap \<times> SinglyLinkedList) option" where
  "unlink h self pred c =
     (case h c of
        None \<Rightarrow> None
      | Some nd \<Rightarrow>
          let pReturn = pItem nd; succ = pNext nd; h1 = h(c := None) in
          (case pred of
             Some p \<Rightarrow>
               (case h1 p of
                  None \<Rightarrow> None
                | Some pn \<Rightarrow>
                    Some (pReturn, h1(p \<mapsto> pn\<lparr>pNext := succ\<rparr>),
                          self\<lparr>iSize := iSize self - 1\<rparr>))
           | None \<Rightarrow> Some (pReturn, h1, self\<lparr>pHead := succ, iSize := iSize self - 1\<rparr>)))"

text \<open>
  The \<open>while\<close> loop of \<open>SLListRemove\<close>. On a store whose chain from \<open>curr\<close> is cyclic
  the loop may not return; as a partial function its value is then \<open>None\<close>.
\<close>

partial_function (option) remove_loop ::
  "node_heap \<Rightarrow> SinglyLinkedList \<Rightarrow> Item \<Rightarrow> addr option \<Rightarrow> addr option
     \<Rightarrow> (Item \<times> node_heap \<times> SinglyLinkedList) option" where
  "remove_loop h self item pred cur =
     (case cur of
        None \<Rightarrow> Some (NULL, h, self)
      | Some c \<Rightarrow>
          (case h c of
             None \<Rightarrow> None
           | Some nd \<Rightarrow>
               if compare self item (pItem nd) = 0 then unlink h self pred c
               else remove_loop h self item cur (pNext nd)))"

definition SLListRemove ::
  "node_heap \<Rightarrow> SinglyLinkedList \<Rightarrow> Item \<Rightarrow> (Item \<times> node_heap \<times> SinglyLinkedList) option" where
  "SLListRemove h self item = remove_loop h self item None (pHead self)"

definition SLListPop ::
  "node_heap \<Rightarrow> SinglyLinkedList \<Rightarrow> nat \<Rightarrow> (Item \<times> node_heap \<times> SinglyLinkedList) option" where
  "SLListPop h self idx =
     (if int idx < as_ulong (iSize self)
      then do {
        (pred, cur) \<leftarrow> walk h None (pHead self) idx;
        (case cur of None \<Rightarrow> None | Some c \<Rightarrow> unlink h self pred c)
      }
      else Some (NULL, h, self))"

text \<open>
  The \<open>while\<close> loop of \<open>SLListReverse\<close>; \<open>head\<close> is \<open>self->pHead\<close>, which the loop
  advances, and \<open>pred\<close> the node relinked last. It returns the store and the final
  \<open>pred\<close>, which \<open>SLListReverse\<close> stores in \<open>pHead\<close>. No other field of the list is
  written.
\<close>

partial_function (option) reverse_loop ::
  "node_heap \<Rightarrow> addr option \<Rightarrow> addr option \<Rightarrow> (node_heap \<times> addr option) option" where
  "reverse_loop h head pred =
     (case head of
        None \<Rightarrow> Some (h, pred)
      | Some a \<Rightarrow>
          (case h a of
             None \<Rightarrow> None
           | Some nd \<Rightarrow> reverse_loop (h(a \<mapsto> nd\<lparr>pNext := pred\<rparr>)) (pNext nd) (Some a)))"

definition SLListReverse ::
  "node_heap \<Rightarrow> SinglyLinkedList \<Rightarrow> (node_heap \<times> SinglyLinkedList) option" where
  "SLListReverse h self =
     do {
       (h', pred) \<leftarrow> reverse_loop h (pHead self) None;
       Some (h', self\<lparr>pHead := pred\<rparr>)
     }"

text \<open>
  \<open>chain h p as\<close>: following \<open>pNext\<close> from the pointer \<open>p\<close> visits exactly the nodes at
  the addresses \<open>as\<close>, in this order, and then reaches null.
\<close>

fun chain :: "node_heap \<Rightarrow> addr option \<Rightarrow> addr list \<Rightarrow> bool" where
  "chain h p [] = (p = None)"
| "chain h p (a # as) =
     (p = Some a \<and> (case h a of None \<Rightarrow> False | Some nd \<Rightarrow> chain h (pNext nd) as))"

text \<open>
  The invariant of the data model (specification, section 3) for a list whose nodes are
  at the addresses \<open>as\<close>: they are the nodes reachable from \<open>pHead\<close>, \<open>iSize\<close> is their
  number, and \<open>pTail\<close> is the last of them, or null when there is none.
\<close>

definition sll_inv :: "node_heap \<Rightarrow> SinglyLinkedList \<Rightarrow> addr list \<Rightarrow> bool" where
  "sll_inv h self as =
     (chain h (pHead self) as \<and> iSize self = int (length as)
      \<and> pTail self = (if as = [] then None else Some (last as)))"

text \<open>The items of the nodes at the addresses \<open>as\<close>, in order.\<close>

definition items_of :: "node_heap \<Rightarrow> addr list \<Rightarrow> Item option list" where
  "items_of h as = map (\<lambda>a. map_option pItem (h a)) as"

text \<open>
  Two descriptions of a store after relinking, used to state what \<open>SLListReverse\<close>
  does. \<open>set_next h a q\<close> writes \<open>q\<close> to the \<open>pNext\<close> field of the node at \<open>a\<close>.
  \<open>relink_back h as q\<close> makes every node of \<open>as\<close> point to its predecessor in \<open>as\<close>,
  the first to \<open>q\<close>; \<open>relink_fwd h as e\<close> makes every node of \<open>as\<close> point to its
  successor in \<open>as\<close>, the last to \<open>e\<close>.
\<close>

definition set_next :: "node_heap \<Rightarrow> addr \<Rightarrow> addr option \<Rightarrow> node_heap" where
  "set_next h a q = h(a := map_option (\<lambda>nd. nd\<lparr>pNext := q\<rparr>) (h a))"

fun relink_back :: "node_heap \<Rightarrow> addr list \<Rightarrow> addr option \<Rightarrow> node_heap" where
  "relink_back h [] q = h"
| "relink_back h (a # as) q = relink_back (set_next h a q) as (Some a)"

fun relink_fwd :: "node_heap \<Rightarrow> addr list \<Rightarrow> addr option \<Rightarrow> node_heap" where
  "relink_fwd h [] e = h"
| "relink_fwd h (a # as) e =
     set_next (relink_fwd h as e) a (case as of [] \<Rightarrow> e | b # _ \<Rightarrow> Some b)"

text \<open>
  The list built by \<open>SLListInit\<close> and two appends of the items 10 and 20, for which the
  allocator returned the addresses 1 and 2.
\<close>

definition heap12 :: node_heap where
  "heap12 = (Map.empty(2 \<mapsto> \<lparr>pItem = 20, pNext = None\<rparr>))(1 \<mapsto> \<lparr>pItem = 10, pNext = Some 2\<rparr>)"

definition list12 :: SinglyLinkedList where
  "list12 = SLListInit\<lparr>pHead := Some 1, pTail := Some 2, iSize := 2\<rparr>"

subsection \<open>Properties\<close>

lemma chain_Cons_iff:
  "chain h p (a # as) \<longleftrightarrow> p = Some a \<and> (\<exists>nd. h a = Some nd \<and> chain h (pNext nd) as)"
  by (simp split: option.splits)

lemma chain_unique: "chain h p as \<Longrightarrow> chain h p bs \<Longrightarrow> as = bs"
proof (induction as arbitrary: p bs)
  case Nil
  then show ?case by (cases bs) simp_all
next
  case (Cons a as)
  then obtain nd where nd: "p = Some a" "h a = Some nd" "chain h (pNext nd) as"
    by (auto split: option.splits)
  show ?case
  proof (cases bs)
    case Nil
    with Cons.prems nd show ?thesis by simp
  next
    case (Cons b bs')
    with Cons.prems nd have "b = a" "chain h (pNext nd) bs'" by (auto split: option.splits)
    with Cons.IH [OF nd(3)] Cons show ?thesis by simp
  qed
qed

lemma chain_suffix: "chain h p (xs @ a # ys) \<Longrightarrow> chain h (Some a) (a # ys)"
proof (induction xs arbitrary: p)
  case Nil
  then show ?case by simp
next
  case (Cons x xs)
  then obtain nd where "h x = Some nd" "chain h (pNext nd) (xs @ a # ys)"
    by (auto split: option.splits)
  then show ?case by (intro Cons.IH)
qed

lemma chain_head_notin: "chain h p (a # as) \<Longrightarrow> a \<notin> set as"
proof
  assume c: "chain h p (a # as)" and "a \<in> set as"
  then obtain xs ys where as: "as = xs @ a # ys" by (meson split_list)
  from c have pa: "p = Some a" by simp
  from c obtain nd where "h a = Some nd" "chain h (pNext nd) as" by (auto split: option.splits)
  then have "chain h (Some a) (a # ys)" unfolding as by (intro chain_suffix [of h "pNext nd" xs])
  with c pa have "a # ys = a # as" by (intro chain_unique [of h p]) simp_all
  then show False unfolding as by simp
qed

lemma chain_distinct: "chain h p as \<Longrightarrow> distinct as"
proof (induction as arbitrary: p)
  case Nil
  then show ?case by simp
next
  case (Cons a as)
  then obtain nd where "h a = Some nd" "chain h (pNext nd) as"
    by (auto split: option.splits)
  then have "distinct as" by (intro Cons.IH)
  with chain_head_notin [OF Cons.prems] show ?case by simp
qed

lemma set_next_other [simp]: "b \<noteq> a \<Longrightarrow> set_next h a q b = h b"
  by (simp add: set_next_def)

lemma set_next_same: "h a = Some nd \<Longrightarrow> set_next h a q a = Some (nd\<lparr>pNext := q\<rparr>)"
  by (simp add: set_next_def)

lemma set_next_item: "map_option pItem (set_next h a q b) = map_option pItem (h b)"
  by (cases "h a") (simp_all add: set_next_def)

lemma chain_set_next_other: "a \<notin> set as \<Longrightarrow> chain (set_next h a q) p as = chain h p as"
  by (induction as arbitrary: p) (auto split: option.splits)

lemma reverse_loop_chain:
  "chain h p ps \<Longrightarrow>
   reverse_loop h p q = Some (relink_back h ps q, if ps = [] then q else Some (last ps))"
proof (induction ps arbitrary: h p q)
  case Nil
  then show ?case by (subst reverse_loop.simps) simp
next
  case (Cons a as)
  then obtain nd where nd: "p = Some a" "h a = Some nd" "chain h (pNext nd) as"
    by (auto split: option.splits)
  have na: "a \<notin> set as" using Cons.prems by (rule chain_head_notin)
  have up: "h(a \<mapsto> nd\<lparr>pNext := q\<rparr>) = set_next h a q" using nd by (simp add: set_next_def)
  have "chain (set_next h a q) (pNext nd) as" using nd na by (simp add: chain_set_next_other)
  then have ih: "reverse_loop (set_next h a q) (pNext nd) (Some a) =
      Some (relink_back (set_next h a q) as (Some a), if as = [] then Some a else Some (last as))"
    by (rule Cons.IH)
  have "reverse_loop h p q = reverse_loop (set_next h a q) (pNext nd) (Some a)"
    using nd up by (subst reverse_loop.simps) simp
  with ih show ?case by simp
qed

lemma relink_back_chain:
  "chain h p ps \<Longrightarrow> chain h q qs \<Longrightarrow> set ps \<inter> set qs = {} \<Longrightarrow>
   chain (relink_back h ps q) (if ps = [] then q else Some (last ps)) (rev ps @ qs)"
proof (induction ps arbitrary: h p q qs)
  case Nil
  then show ?case by simp
next
  case (Cons a as)
  then obtain nd where nd: "p = Some a" "h a = Some nd" "chain h (pNext nd) as"
    by (auto split: option.splits)
  have na: "a \<notin> set as" using Cons.prems(1) by (rule chain_head_notin)
  have nq: "a \<notin> set qs" using Cons.prems(3) by auto
  let ?h = "set_next h a q"
  have c1: "chain ?h (pNext nd) as" using nd na by (simp add: chain_set_next_other)
  have "chain ?h q qs" using Cons.prems(2) nq by (simp add: chain_set_next_other)
  then have c2: "chain ?h (Some a) (a # qs)" using nd by (simp add: set_next_same)
  have dj: "set as \<inter> set (a # qs) = {}" using Cons.prems(3) na by auto
  have ih: "chain (relink_back ?h as (Some a)) (if as = [] then Some a else Some (last as))
           (rev as @ a # qs)"
    using c1 c2 dj by (rule Cons.IH)
  have e1: "relink_back h (a # as) q = relink_back ?h as (Some a)" by simp
  have e2: "(if a # as = [] then q else Some (last (a # as)))
              = (if as = [] then Some a else Some (last as))" by simp
  have e3: "rev (a # as) @ qs = rev as @ a # qs" by simp
  show ?case unfolding e1 e2 e3 by (rule ih)
qed

lemma relink_back_item:
  "map_option pItem (relink_back h ps q b) = map_option pItem (h b)"
  by (induction ps arbitrary: h q) (simp_all add: set_next_item)

lemma relink_back_other: "b \<notin> set ps \<Longrightarrow> relink_back h ps q b = h b"
  by (induction ps arbitrary: h q) auto

lemma relink_back_dom: "dom (relink_back h ps q) = dom h"
proof -
  have "relink_back h ps q b = None \<longleftrightarrow> h b = None" for b
    using relink_back_item [of h ps q b] by (metis option.map_disc_iff)
  then show ?thesis by (auto simp: dom_def)
qed

lemma relink_back_append:
  "relink_back h (xs @ ys) q =
     relink_back (relink_back h xs q) ys (if xs = [] then q else Some (last xs))"
  by (induction xs arbitrary: h q) simp_all

lemma relink_back_rev: "relink_back h (rev ps) e = relink_fwd h ps e"
proof (induction ps)
  case Nil
  then show ?case by simp
next
  case (Cons a as)
  have "(if rev as = [] then e else Some (last (rev as))) = (case as of [] \<Rightarrow> e | b # _ \<Rightarrow> Some b)"
    by (cases as) simp_all
  then show ?case using Cons by (simp add: relink_back_append)
qed

lemma relink_fwd_other: "b \<notin> set ps \<Longrightarrow> relink_fwd h ps e b = h b"
  by (induction ps) auto

lemma node_next_eq:
  "pItem nd1 = pItem nd \<Longrightarrow> nd1\<lparr>pNext := pNext nd\<rparr> = (nd :: SinglyLinkedNode)"
  by (cases nd, cases nd1) simp

lemma relink_fwd_restores:
  "chain h p ps \<Longrightarrow> map_option pItem (h1 b) = map_option pItem (h b) \<Longrightarrow>
   (b \<notin> set ps \<Longrightarrow> h1 b = h b) \<Longrightarrow> relink_fwd h1 ps None b = h b"
proof (induction ps arbitrary: p)
  case Nil
  then show ?case by simp
next
  case (Cons a as)
  then obtain nd where nd: "p = Some a" "h a = Some nd" "chain h (pNext nd) as"
    by (auto split: option.splits)
  have na: "a \<notin> set as" using Cons.prems(1) by (rule chain_head_notin)
  show ?case
  proof (cases "b = a")
    case True
    from Cons.prems(2) nd True obtain nd1 where nd1: "h1 a = Some nd1" "pItem nd1 = pItem nd"
      by (cases "h1 a") auto
    have nx: "(case as of [] \<Rightarrow> None | b # _ \<Rightarrow> Some b) = pNext nd"
      using nd(3) by (cases as) simp_all
    have "relink_fwd h1 as None a = h1 a" using na by (rule relink_fwd_other)
    then have "relink_fwd h1 (a # as) None a = Some (nd1\<lparr>pNext := pNext nd\<rparr>)"
      using nd1 nx by (simp add: set_next_same)
    then show ?thesis using True nd nd1 by (simp add: node_next_eq)
  next
    case False
    have "relink_fwd h1 as None b = h b"
      using nd(3) Cons.prems(2) Cons.prems(3) False by (intro Cons.IH [of "pNext nd"]) auto
    then show ?thesis using False by simp
  qed
qed

text \<open>
  C9 (reverse twice is the identity; reverse relinks in place). For every store and list
  whose nodes reachable from \<open>pHead\<close> are at the addresses \<open>as\<close>, \<open>SLListReverse\<close>
  returns; the store it leaves is the old one with the \<open>pNext\<close> of each of these nodes
  set to its predecessor (\<open>relink_back\<close>), so the chain from the new head visits the
  same nodes in reverse order, with the same items; no address is allocated or freed;
  the counter is unchanged; and a second \<open>SLListReverse\<close> returns exactly the original
  store and list.
\<close>

theorem SLListReverse_twice:
  assumes "chain h (pHead self) as"
  shows "\<exists>h1 self1.
      SLListReverse h self = Some (h1, self1)
    \<and> h1 = relink_back h as None
    \<and> chain h1 (pHead self1) (rev as)
    \<and> items_of h1 (rev as) = rev (items_of h as)
    \<and> dom h1 = dom h
    \<and> iSize self1 = iSize self
    \<and> SLListReverse h1 self1 = Some (h, self)"
proof -
  let ?h1 = "relink_back h as None"
  let ?r = "if as = [] then None else Some (last as)"
  let ?self1 = "self\<lparr>pHead := ?r\<rparr>"
  have r1: "SLListReverse h self = Some (?h1, ?self1)"
    using reverse_loop_chain [OF assms, of None] by (simp add: SLListReverse_def)
  have c1: "chain ?h1 (pHead ?self1) (rev as)"
    using relink_back_chain [OF assms, of None "[]"] by simp
  have it: "items_of ?h1 (rev as) = rev (items_of h as)"
    by (simp add: items_of_def rev_map relink_back_item)
  have "\<And>b. relink_fwd ?h1 as None b = h b"
    using assms by (rule relink_fwd_restores) (simp_all add: relink_back_item relink_back_other)
  then have restored: "relink_back ?h1 (rev as) None = h"
    unfolding relink_back_rev by (intro ext)
  have hd_eq: "(if rev as = [] then None else Some (last (rev as))) = pHead self"
    using assms by (cases as) simp_all
  have "reverse_loop ?h1 ?r None = Some (h, pHead self)"
    using reverse_loop_chain [OF c1, of None] restored hd_eq by simp
  then have r2: "SLListReverse ?h1 ?self1 = Some (h, self)"
    by (simp add: SLListReverse_def)
  show ?thesis using r1 c1 it relink_back_dom [of h as None] r2 by simp
qed

lemma chain_heap12: "chain heap12 (pHead list12) [1, 2]"
  by (simp add: heap12_def list12_def)

theorem SLListReverse_twice_witness:
  "chain heap12 (pHead list12) [1, 2]
   \<and> (\<exists>h1 self1. SLListReverse heap12 list12 = Some (h1, self1)
        \<and> chain h1 (pHead self1) [2, 1]
        \<and> items_of h1 [2, 1] = [Some 20, Some 10]
        \<and> SLListReverse h1 self1 = Some (heap12, list12))"
proof -
  have "items_of heap12 [1, 2] = [Some 10, Some 20]" by (simp add: items_of_def heap12_def)
  then show ?thesis using SLListReverse_twice [OF chain_heap12] chain_heap12 by auto
qed

text \<open>
  C2 (every operation keeps \<open>pTail\<close> on the last reachable node). The list built by
  \<open>SLListInit\<close> and two appends satisfies the invariant. From it: \<open>SLListReverse\<close>
  leaves \<open>pTail\<close> on the node that is now the first; \<open>SLListPop\<close> of the last index
  and \<open>SLListRemove\<close> of the last item free the last node and leave \<open>pTail\<close>
  pointing at the freed address; \<open>SLListInsert\<close> at index \<open>iSize\<close> leaves \<open>pTail\<close>
  on the node before the new last one; and an append after the reverse writes through
  the stale \<open>pTail\<close>, after which only two nodes are reachable from \<open>pHead\<close> while
  \<open>iSize\<close> is 3. None of these functions assigns \<open>pTail\<close>.
\<close>

theorem SLList_tail_not_maintained:
  "SLListAppend (Some 1) Map.empty SLListInit 10 \<bind>
     (\<lambda>(n, h, l). SLListAppend (Some 2) h l 20) = Some (Some 2, heap12, list12)
   \<and> sll_inv heap12 list12 [1, 2]
   \<and> (\<exists>h' l'. SLListReverse heap12 list12 = Some (h', l')
        \<and> chain h' (pHead l') [2, 1] \<and> pTail l' = Some 2 \<and> pTail l' \<noteq> Some (last [2, 1 :: nat]))
   \<and> (\<exists>h' l'. SLListPop heap12 list12 1 = Some (20, h', l')
        \<and> chain h' (pHead l') [1] \<and> iSize l' = 1 \<and> pTail l' = Some 2 \<and> h' 2 = None)
   \<and> (\<exists>h' l'. SLListRemove heap12 list12 20 = Some (20, h', l')
        \<and> chain h' (pHead l') [1] \<and> iSize l' = 1 \<and> pTail l' = Some 2 \<and> h' 2 = None)
   \<and> (\<exists>h' l'. SLListInsert (Some 3) heap12 list12 2 30 = Some (Some 3, h', l')
        \<and> chain h' (pHead l') [1, 2, 3] \<and> iSize l' = 3 \<and> pTail l' = Some 2)
   \<and> (\<exists>h' l'. SLListReverse heap12 list12 \<bind> (\<lambda>(h, l). SLListAppend (Some 3) h l 30)
          = Some (Some 3, h', l')
        \<and> chain h' (pHead l') [2, 3] \<and> iSize l' = 3)"
proof -
  have a: "SLListAppend (Some 1) Map.empty SLListInit 10 \<bind>
     (\<lambda>(n, h, l). SLListAppend (Some 2) h l 20) = Some (Some 2, heap12, list12)"
    by (simp add: SLListAppend_def SLListInit_def heap12_def list12_def Let_def)
  have b: "sll_inv heap12 list12 [1, 2]"
    by (simp add: sll_inv_def heap12_def list12_def)
  have c: "\<exists>h' l'. SLListReverse heap12 list12 = Some (h', l')
        \<and> chain h' (pHead l') [2, 1] \<and> pTail l' = Some 2 \<and> pTail l' \<noteq> Some (last [2, 1 :: nat])"
    by (simp add: SLListReverse_def reverse_loop.simps heap12_def list12_def)
  have d: "\<exists>h' l'. SLListPop heap12 list12 1 = Some (20, h', l')
        \<and> chain h' (pHead l') [1] \<and> iSize l' = 1 \<and> pTail l' = Some 2 \<and> h' 2 = None"
    by (simp add: SLListPop_def as_ulong_def heap12_def list12_def unlink_def Let_def)
  have e: "\<exists>h' l'. SLListRemove heap12 list12 20 = Some (20, h', l')
        \<and> chain h' (pHead l') [1] \<and> iSize l' = 1 \<and> pTail l' = Some 2 \<and> h' 2 = None"
    by (simp add: SLListRemove_def remove_loop.simps heap12_def list12_def unlink_def Let_def
        SLListInit_def SLListCompare_def)
  have f: "\<exists>h' l'. SLListInsert (Some 3) heap12 list12 2 30 = Some (Some 3, h', l')
        \<and> chain h' (pHead l') [1, 2, 3] \<and> iSize l' = 3 \<and> pTail l' = Some 2"
    by (simp add: SLListInsert_def as_ulong_def heap12_def list12_def Let_def numeral_2_eq_2)
  have g: "\<exists>h' l'. SLListReverse heap12 list12 \<bind> (\<lambda>(h, l). SLListAppend (Some 3) h l 30)
          = Some (Some 3, h', l')
        \<and> chain h' (pHead l') [2, 3] \<and> iSize l' = 3"
    by (simp add: SLListReverse_def reverse_loop.simps SLListAppend_def heap12_def list12_def
        Let_def)
  from a b c d e f g show ?thesis by blast
qed

text \<open>
  Of the operations on a built list only \<open>SLListAppend\<close> assigns \<open>pTail\<close>: given a fresh address for
  the new node, it returns and keeps the invariant, the new node being the last.
\<close>

lemma chain_allocated: "chain h p as \<Longrightarrow> a \<in> set as \<Longrightarrow> h a \<noteq> None"
proof (induction as arbitrary: p)
  case Nil
  then show ?case by simp
next
  case (Cons b bs)
  then obtain nd where nd: "h b = Some nd" "chain h (pNext nd) bs"
    by (auto split: option.splits)
  show ?case
  proof (cases "a = b")
    case True
    with nd show ?thesis by simp
  next
    case False
    with Cons.prems have "a \<in> set bs" by simp
    with nd(2) show ?thesis by (rule Cons.IH)
  qed
qed

lemma chain_snoc:
  assumes "h n = None"
  shows "chain h p as \<Longrightarrow> as \<noteq> [] \<Longrightarrow> h (last as) = Some tn \<Longrightarrow>
         chain ((h(n \<mapsto> \<lparr>pItem = item, pNext = None\<rparr>))(last as \<mapsto> tn\<lparr>pNext := Some n\<rparr>)) p (as @ [n])"
proof (induction as arbitrary: p)
  case Nil
  then show ?case by simp
next
  case (Cons a bs)
  then obtain nd where nd: "p = Some a" "h a = Some nd" "chain h (pNext nd) bs"
    by (auto split: option.splits)
  have an: "a \<noteq> n" using nd assms by auto
  show ?case
  proof (cases bs)
    case Nil
    then have "pNext nd = None" "tn = nd" using nd Cons.prems by simp_all
    then show ?thesis using Nil nd an by simp
  next
    case (Cons b bs')
    have na: "a \<notin> set bs" using Cons.prems(1) by (rule chain_head_notin)
    have l: "last (a # bs) = last bs" "bs \<noteq> []" using Cons by simp_all
    then have al: "a \<noteq> last bs" using na last_in_set by metis
    define h' where "h' = (h(n \<mapsto> \<lparr>pItem = item, pNext = None\<rparr>))(last bs \<mapsto> tn\<lparr>pNext := Some n\<rparr>)"
    have "chain h' (pNext nd) (bs @ [n])"
      unfolding h'_def using nd(3) l Cons.prems(3) by (intro Cons.IH) simp_all
    moreover have "h' a = Some nd" using nd an al by (simp add: h'_def)
    ultimately have "chain h' p ((a # bs) @ [n])" using nd(1) by simp
    then show ?thesis unfolding h'_def l(1) .
  qed
qed

lemma SLListAppend_keeps_invariant:
  assumes inv: "sll_inv h self as" and fresh: "h n = None"
  shows "\<exists>h' self'. SLListAppend (Some n) h self item = Some (Some n, h', self')
           \<and> sll_inv h' self' (as @ [n])"
proof (cases as)
  case Nil
  then have "pHead self = None" using inv by (simp add: sll_inv_def)
  then show ?thesis using Nil inv by (simp add: SLListAppend_def sll_inv_def Let_def)
next
  case (Cons a bs)
  have c: "chain h (pHead self) as" and t: "pTail self = Some (last as)"
    and z: "iSize self = int (length as)" and ne: "as \<noteq> []"
    using inv Cons by (simp_all add: sll_inv_def)
  have hd: "pHead self = Some a" using c Cons by simp
  have "last as \<in> set as" using ne by simp
  then obtain tn where tn: "h (last as) = Some tn" using chain_allocated [OF c] by blast
  then have ln: "last as \<noteq> n" using fresh by auto
  let ?h' = "(h(n \<mapsto> \<lparr>pItem = item, pNext = None\<rparr>))(last as \<mapsto> tn\<lparr>pNext := Some n\<rparr>)"
  let ?s' = "self\<lparr>pTail := Some n, iSize := iSize self + 1\<rparr>"
  have r: "SLListAppend (Some n) h self item = Some (Some n, ?h', ?s')"
    using hd t tn ln by (simp add: SLListAppend_def Let_def)
  have "chain ?h' (pHead self) (as @ [n])" using fresh c ne tn by (rule chain_snoc)
  then have "sll_inv ?h' ?s' (as @ [n])" using z by (simp add: sll_inv_def)
  with r show ?thesis by blast
qed

section \<open>Hash map\<close>

subsection \<open>Model\<close>

text \<open>
  A key is a pointer to bytes owned by the caller; the model holds the bytes of the
  buffer it points to. A value is an opaque pointer. The \<open>Pair\<close> struct is declared in
  a header that is not among the sources; the code uses its fields \<open>key\<close> and
  \<open>value\<close> (the latter is \<open>val\<close> here, \<open>value\<close> being a reserved word of Isabelle).
\<close>

type_synonym Key = string

type_synonym Value = nat

record Pair =
  key :: Key
  val :: Value

text \<open>
  \<open>memcmp s1 s2 n\<close> compares the first \<open>n\<close> bytes of two buffers as unsigned
  bytes. Reading past the end of a buffer has no defined result.
\<close>

fun cmp_bytes :: "string \<Rightarrow> string \<Rightarrow> int" where
  "cmp_bytes (x # xs) (y # ys) =
     (if x = y then cmp_bytes xs ys
      else if (of_char x :: nat) < of_char y then - 1 else 1)"
| "cmp_bytes _ _ = 0"

definition memcmp :: "Key \<Rightarrow> Key \<Rightarrow> nat \<Rightarrow> int option" where
  "memcmp s1 s2 n =
     (if n \<le> length s1 \<and> n \<le> length s2 then Some (cmp_bytes (take n s1) (take n s2))
      else None)"

definition aMagicPrimes :: "32 word list" where
  "aMagicPrimes =
     [769, 1543, 3079, 6151, 12289, 24593, 49157, 98317, 196613, 393241, 786433,
      1572869, 3145739, 6291469, 12582917, 25165843, 50331653, 100663319,
      201326611, 402653189, 805306457, 1610612741]"

text \<open>
  A chain of \<open>SlotNode\<close>s is the list of the pairs its nodes point to, the null chain
  being \<open>[]\<close>; the slot array is a list of chains. The map is the only owner of the
  nodes, so nothing else can reach into a chain, with one exception: the iteration
  cursor \<open>pIterNode_\<close> points at a node of a chain. The model holds for it the part
  of the chain that starts at that node (\<open>[]\<close> for the null cursor), which is what
  \<open>HashMapIterate\<close> reads through it as long as the map is not modified between two
  calls. A \<open>HashMapPut\<close> or \<open>HashMapRemove\<close> made between two iterate calls of one
  pass is outside what this representation covers; no property below makes such a
  call.

  The fields of \<open>struct _HashMapData\<close> carry the suffix \<open>m\<close>. \<open>HashMapInit\<close> does not
  write \<open>bEnd_\<close>, \<open>iIterIdx_\<close> and \<open>pIterNode_\<close>; a field of a block from \<open>malloc\<close>
  that was never written is indeterminate, \<open>None\<close> in the model. \<open>calls_m\<close> is not a
  field of the struct: it records the calls made through \<open>pDestroy_\<close>.
\<close>

record HashMapData =
  bEnd_m :: "bool option"
  iSize_m :: int32_t
  iIdxPrime_m :: int32_t
  iCountSlot_m :: int32_t
  iIterIdx_m :: "int32_t option"
  aSlot_m :: "Pair list list option"
  pIterNode_m :: "Pair list option"
  pHash_m :: "Key \<Rightarrow> nat \<Rightarrow> 32 word"
  pDestroy_m :: "destroy_fn option"
  calls_m :: "(destroy_fn \<times> Pair) list"

record HashMap =
  pData :: "HashMapData option"

text \<open>
  \<open>HashMapInit\<close>: \<open>m1\<close>, \<open>m2\<close>, \<open>m3\<close> say whether each of the three allocations
  succeeds. The default hash function \<open>HashMurMur32\<close> is defined in \<open>math/hash.h\<close>,
  which is not among the sources; it is a parameter.
\<close>

definition HashMapInit ::
  "bool \<Rightarrow> bool \<Rightarrow> bool \<Rightarrow> (Key \<Rightarrow> nat \<Rightarrow> 32 word) \<Rightarrow> rc \<times> HashMap option" where
  "HashMapInit m1 m2 m3 HashMurMur32 =
     (if \<not> m1 then (ERR_NOMEM, None)
      else if \<not> m2 then (ERR_NOMEM, None)
      else if \<not> m3 then (ERR_NOMEM, None)
      else (SUCC, Some \<lparr>pData = Some
              \<lparr>bEnd_m = None, iSize_m = 0, iIdxPrime_m = 0, iCountSlot_m = aMagicPrimes ! 0,
               iIterIdx_m = None,
               aSlot_m = Some (replicate (unat (aMagicPrimes ! 0)) []),
               pIterNode_m = None, pHash_m = HashMurMur32, pDestroy_m = None,
               calls_m = []\<rparr>\<rparr>))"

text \<open>
  The macro \<open>CHECK_INIT\<close>: the private data and the slot array when the handle, its
  \<open>pData\<close> and the slot array are all non-null; otherwise the caller returns
  \<open>ERR_NOINIT\<close>.
\<close>

definition CHECK_INIT :: "HashMap option \<Rightarrow> (HashMapData \<times> Pair list list) option" where
  "CHECK_INIT self =
     (case self of
        None \<Rightarrow> None
      | Some obj \<Rightarrow>
          (case pData obj of
             None \<Rightarrow> None
           | Some d \<Rightarrow> (case aSlot_m d of None \<Rightarrow> None | Some aSlot \<Rightarrow> Some (d, aSlot))))"

text \<open>
  The slot index \<open>pHash_(key, size) % iCountSlot_\<close> (the parameter \<open>size\<close> of the
  source is \<open>ksize\<close> here, \<open>size\<close> being a constant of HOL), computed in \<open>uint32_t\<close>. A zero
  divisor has no defined result.
\<close>

definition slot_index :: "HashMapData \<Rightarrow> Key \<Rightarrow> nat \<Rightarrow> nat option" where
  "slot_index d k ksize =
     (if iCountSlot_m d = 0 then None
      else Some (unat (pHash_m d k ksize mod iCountSlot_m d)))"

definition call_destroy_m :: "HashMapData \<Rightarrow> Pair \<Rightarrow> HashMapData" where
  "call_destroy_m d p =
     (case pDestroy_m d of
        None \<Rightarrow> d
      | Some f \<Rightarrow> d\<lparr>calls_m := calls_m d @ [(f, p)]\<rparr>)"

text \<open>
  The scan of \<open>HashMapPut\<close> over a chain: \<open>Some (old, chain')\<close> when a node with a
  byte-equal key was found (\<open>old\<close> is the pair it held, \<open>chain'\<close> the chain with the
  new pair in that node), \<open>None\<close> when the end of the chain was reached.
\<close>

fun put_loop :: "Pair list \<Rightarrow> Pair \<Rightarrow> nat \<Rightarrow> (Pair \<times> Pair list) option option" where
  "put_loop [] pPair ksize = Some None"
| "put_loop (c # cs) pPair ksize =
     (case memcmp (key c) (key pPair) ksize of
        None \<Rightarrow> None
      | Some iRes \<Rightarrow>
          if iRes = 0 then Some (Some (c, pPair # cs))
          else map_option (map_option (\<lambda>(old, cs'). (old, c # cs'))) (put_loop cs pPair ksize))"

text \<open>
  \<open>HashMapPut\<close>; \<open>m\<close> says whether the allocation of the new node succeeds. The code
  does not test the result of \<open>malloc\<close> and writes through it.
\<close>

definition HashMapPut ::
  "bool \<Rightarrow> HashMap option \<Rightarrow> Pair \<Rightarrow> nat \<Rightarrow> (rc \<times> HashMap option) option" where
  "HashMapPut m self pPair ksize =
     (case CHECK_INIT self of
        None \<Rightarrow> Some (ERR_NOINIT, self)
      | Some (d, aSlot) \<Rightarrow>
          if ksize = 0 then Some (ERR_KEYSIZE, self)
          else do {
            uiValue \<leftarrow> slot_index d (key pPair) ksize;
            pCurr \<leftarrow> load aSlot (int uiValue);
            r \<leftarrow> put_loop pCurr pPair ksize;
            (case r of
               Some (old, chain') \<Rightarrow>
                 Some (SUCC, Some \<lparr>pData = Some
                   ((call_destroy_m d old)\<lparr>aSlot_m := Some (aSlot[uiValue := chain'])\<rparr>)\<rparr>)
             | None \<Rightarrow>
                 if \<not> m then None
                 else Some (SUCC, Some \<lparr>pData = Some
                   (d\<lparr>iSize_m := iSize_m d + 1,
                      aSlot_m := Some (aSlot[uiValue := pPair # pCurr])\<rparr>)\<rparr>))
          })"



fun find_loop :: "Pair list \<Rightarrow> Key \<Rightarrow> nat \<Rightarrow> bool option" where
  "find_loop [] k ksize = Some False"
| "find_loop (c # cs) k ksize =
     (case memcmp (key c) k ksize of
        None \<Rightarrow> None
      | Some iRes \<Rightarrow> if iRes = 0 then Some True else find_loop cs k ksize)"

definition HashMapFind :: "HashMap option \<Rightarrow> Key \<Rightarrow> nat \<Rightarrow> rc option" where
  "HashMapFind self k ksize =
     (case CHECK_INIT self of
        None \<Rightarrow> Some ERR_NOINIT
      | Some (d, aSlot) \<Rightarrow>
          if ksize = 0 then Some ERR_KEYSIZE
          else do {
            uiValue \<leftarrow> slot_index d k ksize;
            pCurr \<leftarrow> load aSlot (int uiValue);
            r \<leftarrow> find_loop pCurr k ksize;
            Some (if r then SUCC else NOKEY)
          })"

text \<open>
  The scan of \<open>HashMapRemove\<close>: \<open>Some (old, chain')\<close> when a node with a byte-equal
  key was found (\<open>old\<close> is its pair, \<open>chain'\<close> the chain without that node, which is
  freed), \<open>None\<close> when the end of the chain was reached.
\<close>

fun remove_scan :: "Pair list \<Rightarrow> Key \<Rightarrow> nat \<Rightarrow> (Pair \<times> Pair list) option option" where
  "remove_scan [] k ksize = Some None"
| "remove_scan (c # cs) k ksize =
     (case memcmp (key c) k ksize of
        None \<Rightarrow> None
      | Some iRes \<Rightarrow>
          if iRes = 0 then Some (Some (c, cs))
          else map_option (map_option (\<lambda>(old, cs'). (old, c # cs'))) (remove_scan cs k ksize))"

text \<open>
  \<open>HashMapRemove\<close> (lines 216 to 249). On a match the code runs the destroy callback,
  unlinks the node, frees it and returns \<open>SUCC\<close>. No statement of the function writes
  \<open>iSize_\<close>.
\<close>

definition HashMapRemove :: "HashMap option \<Rightarrow> Key \<Rightarrow> nat \<Rightarrow> (rc \<times> HashMap option) option" where
  "HashMapRemove self k ksize =
     (case CHECK_INIT self of
        None \<Rightarrow> Some (ERR_NOINIT, self)
      | Some (d, aSlot) \<Rightarrow>
          if ksize = 0 then Some (ERR_KEYSIZE, self)
          else do {
            uiValue \<leftarrow> slot_index d k ksize;
            pCurr \<leftarrow> load aSlot (int uiValue);
            r \<leftarrow> remove_scan pCurr k ksize;
            (case r of
               Some (old, chain') \<Rightarrow>
                 Some (SUCC, Some \<lparr>pData = Some
                   ((call_destroy_m d old)\<lparr>aSlot_m := Some (aSlot[uiValue := chain'])\<rparr>)\<rparr>)
             | None \<Rightarrow> Some (ERR_NODATA, self))
          })"

definition HashMapSize :: "HashMap option \<Rightarrow> rc + int32_t" where
  "HashMapSize self =
     (case CHECK_INIT self of None \<Rightarrow> Inl ERR_NOINIT | Some (d, aSlot) \<Rightarrow> Inr (iSize_m d))"

text \<open>
  The \<open>do ... while (true)\<close> loop of \<open>HashMapIterate\<close>. It returns the status, the
  private data and the pair pointer written to \<open>*ppPair\<close>. The statements after the
  loop (set \<open>bEnd_\<close>, clear the output, return \<open>END\<close>) are the branch taken at the
  \<open>break\<close>.
\<close>

function iterate_loop ::
  "Pair list list \<Rightarrow> HashMapData \<Rightarrow> (rc \<times> HashMapData \<times> Pair option) option" where
  "iterate_loop aSlot d =
     (case pIterNode_m d of
        None \<Rightarrow> None
      | Some (p # rest) \<Rightarrow> Some (SUCC, d\<lparr>pIterNode_m := Some rest\<rparr>, Some p)
      | Some [] \<Rightarrow>
          (case iIterIdx_m d of
             None \<Rightarrow> None
           | Some i \<Rightarrow>
               if i + 1 = iCountSlot_m d
               then Some (END, d\<lparr>bEnd_m := Some True, iIterIdx_m := Some (i + 1)\<rparr>, None)
               else (case load aSlot (sint (i + 1)) of
                       None \<Rightarrow> None
                     | Some c \<Rightarrow>
                         iterate_loop aSlot
                           (d\<lparr>iIterIdx_m := Some (i + 1), pIterNode_m := Some c\<rparr>))))"
  by pat_completeness auto

lemma sint_succ_nonneg:
  fixes a :: int32_t
  assumes "0 \<le> sint (a + 1)"
  shows "sint (a + 1) = sint a + 1"
proof (cases "sint a = 2147483647")
  case True
  then have "sint a = sint (2147483647 :: int32_t)" by simp
  then have "a = 2147483647" using word_eq_iff_signed by blast
  then have "sint (a + 1) < 0" by simp
  with assms show ?thesis by simp
next
  case False
  moreover have "sint a \<le> 2147483647" "- 2147483648 \<le> sint a"
    using sint_lt [of a] sint_ge [of a] by simp_all
  ultimately have "signed_take_bit 31 (sint a + 1) = sint a + 1"
    by (intro signed_take_bit_int_eq_self) auto
  then show ?thesis by (simp add: sint_word_ariths)
qed

termination iterate_loop
proof (relation "measure (\<lambda>(aSlot, d). nat (int (length aSlot) - sint (the (iIterIdx_m d))))")
  show "wf (measure (\<lambda>(aSlot, d). nat (int (length aSlot) - sint (the (iIterIdx_m d)))))"
    by simp
next
  fix aSlot :: "Pair list list" and d :: HashMapData and x2 i c
  assume "iIterIdx_m d = Some i" and ld: "load aSlot (sint (i + 1)) = Some c"
  then have r: "0 \<le> sint (i + 1)" "sint (i + 1) < int (length aSlot)"
    by (auto simp: load_def split: if_splits)
  then have "sint (i + 1) = sint i + 1" by (intro sint_succ_nonneg)
  with r \<open>iIterIdx_m d = Some i\<close>
  show "((aSlot, d\<lparr>iIterIdx_m := Some (i + 1), pIterNode_m := Some c\<rparr>), aSlot, d)
          \<in> measure (\<lambda>(aSlot, d). nat (int (length aSlot) - sint (the (iIterIdx_m d))))"
    by simp
qed

declare iterate_loop.simps [simp del]

text \<open>
  \<open>HashMapIterate\<close>. The argument \<open>ppPair\<close> is \<open>None\<close> for a null output pointer and
  \<open>Some p\<close> for a pointer to a slot holding the pair pointer \<open>p\<close> (\<open>None\<close> when that is
  null); the last component of the result is the slot after the call.
\<close>

definition HashMapIterate ::
  "HashMap option \<Rightarrow> bool \<Rightarrow> Pair option option
     \<Rightarrow> (rc \<times> HashMap option \<times> Pair option option) option" where
  "HashMapIterate self bReset ppPair =
     (case CHECK_INIT self of
        None \<Rightarrow> Some (ERR_NOINIT, self, ppPair)
      | Some (d, aSlot) \<Rightarrow>
          if bReset
          then do {
            c \<leftarrow> load aSlot 0;
            Some (SUCC,
                  Some \<lparr>pData = Some (d\<lparr>iIterIdx_m := Some 0, pIterNode_m := Some c,
                                         bEnd_m := Some False\<rparr>)\<rparr>,
                  ppPair)
          }
          else if ppPair = None then Some (ERR_GET, self, ppPair)
          else
            (case bEnd_m d of
               None \<Rightarrow> None
             | Some True \<Rightarrow> Some (END, self, Some None)
             | Some False \<Rightarrow>
                 do {
                   (r, d', p) \<leftarrow> iterate_loop aSlot d;
                   Some (r, Some \<lparr>pData = Some d'\<rparr>, Some p)
                 }))"

definition HashMapSetDestroy :: "HashMap option \<Rightarrow> destroy_fn option \<Rightarrow> rc \<times> HashMap option" where
  "HashMapSetDestroy self pFunc =
     (case CHECK_INIT self of
        None \<Rightarrow> (ERR_NOINIT, self)
      | Some (d, aSlot) \<Rightarrow> (SUCC, Some \<lparr>pData = Some (d\<lparr>pDestroy_m := pFunc\<rparr>)\<rparr>))"

definition HashMapSetHash ::
  "HashMap option \<Rightarrow> (Key \<Rightarrow> nat \<Rightarrow> 32 word) \<Rightarrow> rc \<times> HashMap option" where
  "HashMapSetHash self pFunc =
     (case CHECK_INIT self of
        None \<Rightarrow> (ERR_NOINIT, self)
      | Some (d, aSlot) \<Rightarrow> (SUCC, Some \<lparr>pData = Some (d\<lparr>pHash_m := pFunc\<rparr>)\<rparr>))"

text \<open>
  Notions used to state the properties. \<open>handle d\<close> is a non-null handle whose private
  data is \<open>d\<close>. \<open>map_wf d aSlot\<close>: the map is initialized with slot array \<open>aSlot\<close>,
  which has \<open>iCountSlot_\<close> = 769 slots (the first magic prime; no function changes
  it). \<open>slot_of d k n\<close> is the slot index of key \<open>k\<close> with key size \<open>n\<close>.
  \<open>cursor aSlot d rem\<close>: the iteration cursor of \<open>d\<close> is set, and the pairs it has
  still to visit are \<open>rem\<close>. \<open>iterate_calls n self pp\<close> is a caller that makes \<open>n\<close>
  calls of \<open>HashMapIterate\<close> with \<open>reset = false\<close> in a row and collects the status
  and the output slot of each. \<open>init_data hf\<close> is the private data \<open>HashMapInit\<close>
  builds. \<open>stored d aSlot n P\<close>: the pairs in the map are those of \<open>P\<close>, each with a
  key of at least \<open>n\<close> bytes and each in the chain of its slot for key size \<open>n\<close>.
\<close>

definition handle :: "HashMapData \<Rightarrow> HashMap option" where
  "handle d = Some \<lparr>pData = Some d\<rparr>"

definition map_wf :: "HashMapData \<Rightarrow> Pair list list \<Rightarrow> bool" where
  "map_wf d aSlot = (aSlot_m d = Some aSlot \<and> iCountSlot_m d = 769 \<and> length aSlot = 769)"

definition slot_of :: "HashMapData \<Rightarrow> Key \<Rightarrow> nat \<Rightarrow> nat" where
  "slot_of d k n = unat (pHash_m d k n mod iCountSlot_m d)"

definition cursor :: "Pair list list \<Rightarrow> HashMapData \<Rightarrow> Pair list \<Rightarrow> bool" where
  "cursor aSlot d rem =
     (\<exists>node i. pIterNode_m d = Some node \<and> iIterIdx_m d = Some i \<and> 0 \<le> sint i \<and> sint i < 769
        \<and> rem = node @ concat (drop (Suc (nat (sint i))) aSlot))"

fun iterate_calls ::
  "nat \<Rightarrow> HashMap option \<Rightarrow> Pair option option
     \<Rightarrow> ((rc \<times> Pair option option) list \<times> HashMap option) option" where
  "iterate_calls 0 self pp = Some ([], self)"
| "iterate_calls (Suc n) self pp =
     do {
       (r, self', pp') \<leftarrow> HashMapIterate self False pp;
       (rs, self'') \<leftarrow> iterate_calls n self' pp';
       Some ((r, pp') # rs, self'')
     }"

definition init_data :: "(Key \<Rightarrow> nat \<Rightarrow> 32 word) \<Rightarrow> HashMapData" where
  "init_data hf =
     \<lparr>bEnd_m = None, iSize_m = 0, iIdxPrime_m = 0, iCountSlot_m = 769, iIterIdx_m = None,
      aSlot_m = Some (replicate 769 []), pIterNode_m = None, pHash_m = hf, pDestroy_m = None,
      calls_m = []\<rparr>"

definition stored :: "HashMapData \<Rightarrow> Pair list list \<Rightarrow> nat \<Rightarrow> Pair set \<Rightarrow> bool" where
  "stored d aSlot n P =
     (map_wf d aSlot \<and> set (concat aSlot) = P
      \<and> (\<forall>q \<in> P. n \<le> length (key q) \<and> q \<in> set (aSlot ! slot_of d (key q) n)))"

definition pair_a :: Pair where
  "pair_a = \<lparr>key = ''a'', val = 1\<rparr>"

definition pair_b :: Pair where
  "pair_b = \<lparr>key = ''b'', val = 2\<rparr>"

definition pair_c :: Pair where
  "pair_c = \<lparr>key = ''c'', val = 3\<rparr>"

definition pair_d :: Pair where
  "pair_d = \<lparr>key = ''d'', val = 4\<rparr>"

text \<open>
  What one run of the loop of \<open>HashMapIterate\<close> returns when the pairs still to visit
  are \<open>rem\<close>.
\<close>

definition iter_post ::
  "Pair list list \<Rightarrow> HashMapData \<Rightarrow> Pair list \<Rightarrow> rc \<times> HashMapData \<times> Pair option \<Rightarrow> bool" where
  "iter_post aSlot d rem res =
     (case res of (r, d', out) \<Rightarrow>
        aSlot_m d' = aSlot_m d \<and> iCountSlot_m d' = iCountSlot_m d \<and> iSize_m d' = iSize_m d
        \<and> (case rem of
              [] \<Rightarrow> r = END \<and> out = None \<and> bEnd_m d' = Some True
            | p # rest \<Rightarrow> r = SUCC \<and> out = Some p \<and> bEnd_m d' = bEnd_m d \<and> cursor aSlot d' rest))"

subsection \<open>Properties\<close>

lemma CHECK_INIT_handle: "map_wf d aSlot \<Longrightarrow> CHECK_INIT (handle d) = Some (d, aSlot)"
  by (simp add: map_wf_def CHECK_INIT_def handle_def)

lemma slot_of_lt: "map_wf d aSlot \<Longrightarrow> slot_of d k n < length aSlot"
  by (simp add: map_wf_def slot_of_def unat_mod_distrib)

lemma slot_index_wf: "map_wf d aSlot \<Longrightarrow> slot_index d k n = Some (slot_of d k n)"
  by (simp add: map_wf_def slot_index_def slot_of_def)

lemma load_slot: "map_wf d aSlot \<Longrightarrow> load aSlot (int (slot_of d k n)) = Some (aSlot ! slot_of d k n)"
  using slot_of_lt [of d aSlot k n] by (simp add: load_def)

lemma cmp_bytes_eq: "length xs = length ys \<Longrightarrow> cmp_bytes xs ys = 0 \<longleftrightarrow> xs = ys"
  by (induction xs ys rule: cmp_bytes.induct) auto

lemma memcmp_Some:
  "n \<le> length a \<Longrightarrow> n \<le> length b \<Longrightarrow>
   \<exists>r. memcmp a b n = Some r \<and> (r = 0 \<longleftrightarrow> take n a = take n b)"
  by (simp add: memcmp_def cmp_bytes_eq)






lemma put_loop_absent:
  "\<forall>q \<in> set c. n \<le> length (key q) \<and> take n (key q) \<noteq> take n (key p) \<Longrightarrow> n \<le> length (key p) \<Longrightarrow>
   put_loop c p n = Some None"
proof (induction c)
  case Nil
  then show ?case by simp
next
  case (Cons q qs)
  then obtain iRes where "memcmp (key q) (key p) n = Some iRes" "iRes \<noteq> 0"
    using memcmp_Some [of n "key q" "key p"] by auto
  with Cons show ?case by simp
qed

lemma remove_scan_present:
  "\<forall>q \<in> set c. n \<le> length (key q) \<Longrightarrow> n \<le> length k \<Longrightarrow>
   \<exists>q \<in> set c. take n (key q) = take n k \<Longrightarrow>
   \<exists>old c'. remove_scan c k n = Some (Some (old, c')) \<and> take n (key old) = take n k
      \<and> length c = Suc (length c')"
proof (induction c)
  case Nil
  then show ?case by simp
next
  case (Cons q qs)
  obtain iRes where m: "memcmp (key q) k n = Some iRes" "iRes = 0 \<longleftrightarrow> take n (key q) = take n k"
    using Cons.prems memcmp_Some [of n "key q" k] by auto
  show ?case
  proof (cases "iRes = 0")
    case True
    with m show ?thesis by simp
  next
    case False
    with m Cons.prems have "\<exists>q \<in> set qs. take n (key q) = take n k" by auto
    then obtain old c' where "remove_scan qs k n = Some (Some (old, c'))"
      "take n (key old) = take n k" "length qs = Suc (length c')"
      using Cons by auto
    with m False show ?thesis by simp
  qed
qed

lemma HashMapPut_result:
  assumes wf: "map_wf d aSlot" and n: "n \<noteq> 0"
    and pl: "put_loop (aSlot ! slot_of d (key p) n) p n = Some r"
    and m: "r = None \<longrightarrow> m"
  shows "HashMapPut m (handle d) p n =
     Some (SUCC, handle
       (case r of
          None \<Rightarrow> d\<lparr>iSize_m := iSize_m d + 1,
                     aSlot_m := Some (aSlot[slot_of d (key p) n := p # aSlot ! slot_of d (key p) n])\<rparr>
        | Some (old, c') \<Rightarrow>
            (call_destroy_m d old)\<lparr>aSlot_m := Some (aSlot[slot_of d (key p) n := c'])\<rparr>))"
proof (cases r)
  case None
  then show ?thesis using n pl m
    by (simp add: HashMapPut_def CHECK_INIT_handle [OF wf] slot_index_wf [OF wf] load_slot [OF wf])
       (simp add: handle_def)
next
  case (Some oc)
  obtain old c' where "oc = (old, c')" by (cases oc)
  with Some show ?thesis using n pl
    by (simp add: HashMapPut_def CHECK_INIT_handle [OF wf] slot_index_wf [OF wf] load_slot [OF wf])
       (simp add: handle_def)
qed

lemma call_destroy_m_fields [simp]:
  "aSlot_m (call_destroy_m d p) = aSlot_m d" "iCountSlot_m (call_destroy_m d p) = iCountSlot_m d"
  "pHash_m (call_destroy_m d p) = pHash_m d" "iSize_m (call_destroy_m d p) = iSize_m d"
  "bEnd_m (call_destroy_m d p) = bEnd_m d" "iIterIdx_m (call_destroy_m d p) = iIterIdx_m d"
  "pIterNode_m (call_destroy_m d p) = pIterNode_m d"
  by (simp_all add: call_destroy_m_def split: option.splits)



lemma HashMapInit_ok: "HashMapInit True True True hf = (SUCC, handle (init_data hf))"
  by (simp add: HashMapInit_def init_data_def handle_def aMagicPrimes_def)

lemma map_wf_init: "map_wf (init_data hf) (replicate 769 [])"
  by (simp add: map_wf_def init_data_def)

lemma map_wf_update:
  "map_wf d aSlot \<Longrightarrow> iCountSlot_m d' = iCountSlot_m d \<Longrightarrow> aSlot_m d' = Some (aSlot[i := c]) \<Longrightarrow>
   map_wf d' (aSlot[i := c])"
  by (simp add: map_wf_def)

lemma set_nth_concat:
  assumes "j < length xs"
  shows "set (xs ! j) \<subseteq> set (concat xs)"
proof -
  have "xs ! j \<in> set xs" using assms by (rule nth_mem)
  then show ?thesis by auto
qed




text \<open>
  C10 (construction leaves the iteration cursor unset), as amended. \<open>HashMapInit\<close>
  writes neither \<open>bEnd_\<close> nor \<open>iIterIdx_\<close> nor \<open>pIterNode_\<close>. On the map it
  returns, an iterate call with \<open>reset = false\<close> and a non-null output pointer reads
  the indeterminate \<open>bEnd_\<close> and has no defined result; with a null output pointer
  the call returns \<open>ERR_GET\<close> before it reads the cursor; and a call with
  \<open>reset = true\<close> sets the three fields and returns \<open>SUCC\<close>.
\<close>

theorem HashMapInit_leaves_cursor_unset:
  "HashMapInit True True True hf = (SUCC, handle (init_data hf))
   \<and> bEnd_m (init_data hf) = None \<and> iIterIdx_m (init_data hf) = None
   \<and> pIterNode_m (init_data hf) = None
   \<and> HashMapIterate (handle (init_data hf)) False (Some p) = None
   \<and> HashMapIterate (handle (init_data hf)) False None
       = Some (ERR_GET, handle (init_data hf), None)
   \<and> HashMapIterate (handle (init_data hf)) True (Some p) =
       Some (SUCC,
             handle ((init_data hf)\<lparr>iIterIdx_m := Some 0, pIterNode_m := Some [],
                                    bEnd_m := Some False\<rparr>),
             Some p)"
proof -
  have "load (replicate 769 ([] :: Pair list)) 0 = Some []" by (simp add: load_def)
  then show ?thesis
    by (simp add: HashMapInit_ok HashMapIterate_def CHECK_INIT_handle [OF map_wf_init])
       (simp add: init_data_def handle_def)
qed

text \<open>
  C10 as stated says that every iterate call with \<open>reset = false\<close> made before a reset
  has no defined result. On the map \<open>HashMapInit\<close> returns, such a call with a null
  output pointer has one: it returns \<open>ERR_GET\<close> and leaves the map unchanged.
\<close>

theorem HashMapIterate_null_output_before_reset:
  "HashMapIterate (snd (HashMapInit True True True (\<lambda>k n. 0))) False None =
     Some (ERR_GET, snd (HashMapInit True True True (\<lambda>k n. 0)), None)"
  by (simp add: HashMapInit_ok HashMapIterate_def CHECK_INIT_handle [OF map_wf_init])

lemma set_concat_update:
  assumes "i < length xs"
  shows "set (concat (xs[i := c])) = set c \<union> set (concat (take i xs)) \<union> set (concat (drop (Suc i) xs))"
proof -
  have "xs[i := c] = take i xs @ c # drop (Suc i) xs" using assms by (rule upd_conv_take_nth_drop)
  then show ?thesis by auto
qed

lemma set_concat_split:
  assumes "i < length xs"
  shows "set (concat xs) = set (xs ! i) \<union> set (concat (take i xs)) \<union> set (concat (drop (Suc i) xs))"
proof -
  have "xs = take i xs @ xs ! i # drop (Suc i) xs" using assms by (rule id_take_nth_drop)
  then have "concat xs = concat (take i xs) @ xs ! i @ concat (drop (Suc i) xs)"
    by (metis concat.simps(2) concat_append)
  then show ?thesis by auto
qed

lemma set_concat_cons_update:
  "i < length xs \<Longrightarrow> set (concat (xs[i := p # xs ! i])) = insert p (set (concat xs))"
  using set_concat_update [of i xs "p # xs ! i"] set_concat_split [of i xs] by auto

lemma put_fresh:
  assumes st: "stored d aSlot n P" and n: "n \<noteq> 0" "n \<le> length (key p)"
    and fresh: "\<forall>q \<in> P. take n (key q) \<noteq> take n (key p)"
  shows "\<exists>d' aSlot'. HashMapPut True (handle d) p n = Some (SUCC, handle d')
           \<and> stored d' aSlot' n (insert p P) \<and> iSize_m d' = iSize_m d + 1
           \<and> pHash_m d' = pHash_m d"
proof -
  let ?i = "slot_of d (key p) n"
  let ?A = "aSlot[?i := p # aSlot ! ?i]"
  let ?d = "d\<lparr>iSize_m := iSize_m d + 1, aSlot_m := Some ?A\<rparr>"
  have wf: "map_wf d aSlot" and P: "set (concat aSlot) = P"
    and mem: "\<forall>q \<in> P. n \<le> length (key q) \<and> q \<in> set (aSlot ! slot_of d (key q) n)"
    using st by (simp_all add: stored_def)
  have il: "?i < length aSlot" using wf by (rule slot_of_lt)
  have "set (aSlot ! ?i) \<subseteq> P" using set_nth_concat [OF il] P by simp
  then have "\<forall>q \<in> set (aSlot ! ?i). n \<le> length (key q) \<and> take n (key q) \<noteq> take n (key p)"
    using mem fresh by blast
  then have pl: "put_loop (aSlot ! ?i) p n = Some None" using n by (intro put_loop_absent)
  have r: "HashMapPut True (handle d) p n = Some (SUCC, handle ?d)"
    using HashMapPut_result [OF wf n(1) pl] by simp
  have wf': "map_wf ?d ?A" using wf by (intro map_wf_update) simp_all
  have so: "\<And>k. slot_of ?d k n = slot_of d k n" by (simp add: slot_of_def)
  have P': "set (concat ?A) = insert p P"
    unfolding P [symmetric] using il by (rule set_concat_cons_update)
  have keep: "\<And>j. j < length aSlot \<Longrightarrow> set (aSlot ! j) \<subseteq> set (?A ! j)"
    using il by (auto simp: nth_list_update)
  have "\<forall>q \<in> insert p P. n \<le> length (key q) \<and> q \<in> set (?A ! slot_of ?d (key q) n)"
  proof
    fix q assume q: "q \<in> insert p P"
    show "n \<le> length (key q) \<and> q \<in> set (?A ! slot_of ?d (key q) n)"
    proof (cases "q = p")
      case True
      then show ?thesis using n il by (simp add: so)
    next
      case False
      with q have qP: "q \<in> P" by simp
      have "slot_of d (key q) n < length aSlot" using wf by (rule slot_of_lt)
      then show ?thesis using mem qP keep unfolding so by blast
    qed
  qed
  then have "stored ?d ?A n (insert p P)" using wf' P' by (simp add: stored_def)
  with r show ?thesis by (intro exI [of _ ?d] exI [of _ ?A]) simp
qed

lemma HashMapRemove_result:
  assumes wf: "map_wf d aSlot" and n: "n \<noteq> 0"
    and rs: "remove_scan (aSlot ! slot_of d k n) k n = Some (Some (old, c'))"
  shows "HashMapRemove (handle d) k n =
     Some (SUCC, handle ((call_destroy_m d old)\<lparr>aSlot_m := Some (aSlot[slot_of d k n := c'])\<rparr>))"
  using n rs
  by (simp add: HashMapRemove_def CHECK_INIT_handle [OF wf] slot_index_wf [OF wf] load_slot [OF wf])
     (simp add: handle_def)

lemma remove_stored:
  assumes st: "stored d aSlot n P" and n: "n \<noteq> 0" and p: "p \<in> P"
  shows "\<exists>d'. HashMapRemove (handle d) (key p) n = Some (SUCC, handle d')
           \<and> iSize_m d' = iSize_m d \<and> iCountSlot_m d' = iCountSlot_m d
           \<and> (\<exists>A. aSlot_m d' = Some A \<and> length A = length aSlot
                 \<and> Suc (length (A ! slot_of d (key p) n)) = length (aSlot ! slot_of d (key p) n))"
proof -
  let ?i = "slot_of d (key p) n"
  have wf: "map_wf d aSlot" and P: "set (concat aSlot) = P"
    and mem: "\<forall>q \<in> P. n \<le> length (key q) \<and> q \<in> set (aSlot ! slot_of d (key q) n)"
    using st by (simp_all add: stored_def)
  have il: "?i < length aSlot" using wf by (rule slot_of_lt)
  have "set (aSlot ! ?i) \<subseteq> P" using set_nth_concat [OF il] P by simp
  then have a: "\<forall>q \<in> set (aSlot ! ?i). n \<le> length (key q)" using mem by blast
  have b: "n \<le> length (key p)" using mem p by blast
  have c: "\<exists>q \<in> set (aSlot ! ?i). take n (key q) = take n (key p)" using mem p by blast
  from remove_scan_present [OF a b c] obtain old c' where
    rs: "remove_scan (aSlot ! ?i) (key p) n = Some (Some (old, c'))"
    and ln: "length (aSlot ! ?i) = Suc (length c')" by blast
  show ?thesis
    unfolding HashMapRemove_result [OF wf n rs] using il ln
    by (intro exI [of _ "(call_destroy_m d old)\<lparr>aSlot_m := Some (aSlot[?i := c'])\<rparr>"]) simp
qed

lemma stored_init: "stored (init_data hf) (replicate 769 []) n {}"
  by (simp add: stored_def map_wf_init)

text \<open>
  C1 (remove decrements the size). Whatever the hash function: in the map built by
  \<open>HashMapInit\<close> and four puts of the single-byte keys a, b, c, d, \<open>HashMapSize\<close>
  returns 4; \<open>HashMapRemove\<close> of key b returns \<open>SUCC\<close>; and \<open>HashMapSize\<close> then
  still returns 4, not 3.
\<close>

theorem HashMapRemove_keeps_size:
  "\<exists>s1 s2 s3 s4 s5.
      HashMapPut True (snd (HashMapInit True True True hf)) pair_a 1 = Some (SUCC, s1)
    \<and> HashMapPut True s1 pair_b 1 = Some (SUCC, s2)
    \<and> HashMapPut True s2 pair_c 1 = Some (SUCC, s3)
    \<and> HashMapPut True s3 pair_d 1 = Some (SUCC, s4)
    \<and> HashMapSize s4 = Inr 4
    \<and> HashMapRemove s4 ''b'' 1 = Some (SUCC, s5)
    \<and> HashMapSize s5 = Inr 4"
proof -
  have k: "key pair_a = ''a''" "key pair_b = ''b''" "key pair_c = ''c''" "key pair_d = ''d''"
    by (simp_all add: pair_a_def pair_b_def pair_c_def pair_d_def)
  obtain d1 A1 where p1: "HashMapPut True (handle (init_data hf)) pair_a 1 = Some (SUCC, handle d1)"
    and s1: "stored d1 A1 1 {pair_a}" and z1: "iSize_m d1 = 1"
    using put_fresh [OF stored_init, of 1 pair_a hf] by (auto simp: k init_data_def)
  obtain d2 A2 where p2: "HashMapPut True (handle d1) pair_b 1 = Some (SUCC, handle d2)"
    and s2: "stored d2 A2 1 {pair_b, pair_a}" and z2: "iSize_m d2 = 2"
    using put_fresh [OF s1, of pair_b] z1 by (auto simp: k)
  obtain d3 A3 where p3: "HashMapPut True (handle d2) pair_c 1 = Some (SUCC, handle d3)"
    and s3: "stored d3 A3 1 {pair_c, pair_b, pair_a}" and z3: "iSize_m d3 = 3"
    using put_fresh [OF s2, of pair_c] z2 by (auto simp: k)
  obtain d4 A4 where p4: "HashMapPut True (handle d3) pair_d 1 = Some (SUCC, handle d4)"
    and s4: "stored d4 A4 1 {pair_d, pair_c, pair_b, pair_a}" and z4: "iSize_m d4 = 4"
    using put_fresh [OF s3, of pair_d] z3 by (auto simp: k)
  have wf4: "map_wf d4 A4" using s4 by (simp add: stored_def)
  obtain d5 A5 where r: "HashMapRemove (handle d4) (key pair_b) 1 = Some (SUCC, handle d5)"
    and z5: "iSize_m d5 = iSize_m d4" and c5: "iCountSlot_m d5 = iCountSlot_m d4"
    and a5: "aSlot_m d5 = Some A5" "length A5 = length A4"
    using remove_stored [OF s4, of pair_b] by auto
  have wf5: "map_wf d5 A5" using wf4 c5 a5 by (simp add: map_wf_def)
  have sz4: "HashMapSize (handle d4) = Inr 4"
    using z4 by (simp add: HashMapSize_def CHECK_INIT_handle [OF wf4])
  have sz5: "HashMapSize (handle d5) = Inr 4"
    using z4 z5 by (simp add: HashMapSize_def CHECK_INIT_handle [OF wf5])
  show ?thesis
    using p1 p2 p3 p4 sz4 r sz5 unfolding HashMapInit_ok k by auto
qed

lemma sint_succ_769:
  fixes i :: int32_t
  assumes "sint i < 769"
  shows "sint (i + 1) = sint i + 1"
proof -
  have "sint i < sint (769 :: int32_t)" using assms by simp
  then show ?thesis by (rule sint_succ)
qed

lemma iterate_loop_post:
  assumes len: "length aSlot = 769"
  shows "iCountSlot_m d = 769 \<Longrightarrow> cursor aSlot d rem \<Longrightarrow>
         \<exists>res. iterate_loop aSlot d = Some res \<and> iter_post aSlot d rem res"
proof (induction d rule: measure_induct_rule [where f = "\<lambda>d. 769 - nat (sint (the (iIterIdx_m d)))"])
  case (less d)
  from less.prems(2) obtain node i where c: "pIterNode_m d = Some node" "iIterIdx_m d = Some i"
    "0 \<le> sint i" "sint i < 769" and rem: "rem = node @ concat (drop (Suc (nat (sint i))) aSlot)"
    unfolding cursor_def by blast
  define j where "j = nat (sint i)"
  have j: "j < 769" "sint i = int j" using c unfolding j_def by simp_all
  have s1: "sint (i + 1) = int (Suc j)" using sint_succ_769 [OF c(4)] j by simp
  show ?case
  proof (cases node)
    case (Cons q qs)
    have "iterate_loop aSlot d = Some (SUCC, d\<lparr>pIterNode_m := Some qs\<rparr>, Some q)"
      using c Cons by (subst iterate_loop.simps) simp
    moreover have "cursor aSlot (d\<lparr>pIterNode_m := Some qs\<rparr>) (qs @ concat (drop (Suc j) aSlot))"
      unfolding cursor_def using c j by auto
    ultimately show ?thesis using rem Cons unfolding j_def [symmetric]
      by (simp add: iter_post_def)
  next
    case Nil
    show ?thesis
    proof (cases "Suc j = 769")
      case True
      have "sint (i + 1) = sint (769 :: int32_t)" using s1 True by simp
      then have e: "i + 1 = 769" using word_eq_iff_signed by blast
      have "iterate_loop aSlot d =
          Some (END, d\<lparr>bEnd_m := Some True, iIterIdx_m := Some (i + 1)\<rparr>, None)"
        using c Nil e less.prems(1) by (subst iterate_loop.simps) simp
      moreover have "rem = []" using rem Nil True len unfolding j_def [symmetric] by simp
      ultimately show ?thesis by (simp add: iter_post_def)
    next
      case False
      then have sj: "Suc j < 769" using j by linarith
      have "sint (i + 1) \<noteq> sint (769 :: int32_t)" using s1 sj by simp
      then have ne: "i + 1 \<noteq> iCountSlot_m d" using less.prems(1) by auto
      have ns: "nat (sint (i + 1)) = Suc j" using s1 by linarith
      have ld: "load aSlot (sint (i + 1)) = Some (aSlot ! Suc j)"
        unfolding load_def ns using s1 sj len by simp
      let ?d1 = "d\<lparr>iIterIdx_m := Some (i + 1), pIterNode_m := Some (aSlot ! Suc j)\<rparr>"
      have un: "iterate_loop aSlot d = iterate_loop aSlot ?d1"
        using c Nil ne ld by (subst iterate_loop.simps) simp
      have "aSlot ! Suc j # drop (Suc (Suc j)) aSlot = drop (Suc j) aSlot"
        using sj len by (intro Cons_nth_drop_Suc) simp
      then have "concat (drop (Suc j) aSlot) = aSlot ! Suc j @ concat (drop (Suc (Suc j)) aSlot)"
        by (metis concat.simps(2))
      moreover have b: "0 \<le> sint (i + 1)" "sint (i + 1) < 769" using s1 sj by simp_all
      ultimately have c1: "cursor aSlot ?d1 rem"
        unfolding cursor_def using rem Nil ns unfolding j_def [symmetric] by simp
      have m: "769 - nat (sint (the (iIterIdx_m ?d1))) < 769 - nat (sint (the (iIterIdx_m d)))"
        using c s1 j by simp
      from less.IH [OF m _ c1] less.prems(1)
      obtain res where r: "iterate_loop aSlot ?d1 = Some res" "iter_post aSlot ?d1 rem res"
        by auto
      have "iter_post aSlot d rem res"
        using r(2) by (cases rem) (auto simp: iter_post_def)
      with r un show ?thesis by simp
    qed
  qed
qed

lemma HashMapIterate_step:
  assumes wf: "map_wf d aSlot" and be: "bEnd_m d = Some False" and cu: "cursor aSlot d rem"
  shows "\<exists>d'. HashMapIterate (handle d) False (Some x) =
             Some (case rem of [] \<Rightarrow> END | p # rest \<Rightarrow> SUCC, handle d',
                   Some (case rem of [] \<Rightarrow> None | p # rest \<Rightarrow> Some p))
           \<and> map_wf d' aSlot \<and> iSize_m d' = iSize_m d
           \<and> (case rem of [] \<Rightarrow> bEnd_m d' = Some True
               | p # rest \<Rightarrow> bEnd_m d' = Some False \<and> cursor aSlot d' rest)"
proof -
  have len: "length aSlot = 769" and cnt: "iCountSlot_m d = 769" and sl: "aSlot_m d = Some aSlot"
    using wf by (simp_all add: map_wf_def)
  from iterate_loop_post [OF len cnt cu] obtain r d' out where
    il: "iterate_loop aSlot d = Some (r, d', out)" and po: "iter_post aSlot d rem (r, d', out)"
    by (metis prod_cases3)
  have wf': "map_wf d' aSlot" using po wf by (simp add: iter_post_def map_wf_def)
  have "HashMapIterate (handle d) False (Some x) = Some (r, handle d', Some out)"
    using be il by (simp add: HashMapIterate_def CHECK_INIT_handle [OF wf]) (simp add: handle_def)
  then show ?thesis using po wf' be
    by (cases rem) (auto simp: iter_post_def)
qed

lemma HashMapIterate_sticky:
  assumes wf: "map_wf d aSlot" and be: "bEnd_m d = Some True"
  shows "HashMapIterate (handle d) False (Some x) = Some (END, handle d, Some None)"
  using be by (simp add: HashMapIterate_def CHECK_INIT_handle [OF wf])

lemma HashMapIterate_reset:
  assumes wf: "map_wf d aSlot"
  shows "HashMapIterate (handle d) True pp =
           Some (SUCC, handle (d\<lparr>iIterIdx_m := Some 0, pIterNode_m := Some (aSlot ! 0),
                                  bEnd_m := Some False\<rparr>), pp)"
    and "cursor aSlot (d\<lparr>iIterIdx_m := Some 0, pIterNode_m := Some (aSlot ! 0),
                          bEnd_m := Some False\<rparr>) (concat aSlot)"
    and "map_wf (d\<lparr>iIterIdx_m := Some 0, pIterNode_m := Some (aSlot ! 0),
                    bEnd_m := Some False\<rparr>) aSlot"
proof -
  have len: "length aSlot = 769" using wf by (simp add: map_wf_def)
  then have ld: "load aSlot 0 = Some (aSlot ! 0)" by (simp add: load_def)
  show "HashMapIterate (handle d) True pp =
           Some (SUCC, handle (d\<lparr>iIterIdx_m := Some 0, pIterNode_m := Some (aSlot ! 0),
                                  bEnd_m := Some False\<rparr>), pp)"
    using ld by (simp add: HashMapIterate_def CHECK_INIT_handle [OF wf]) (simp add: handle_def)
  have "aSlot ! 0 # drop (Suc 0) aSlot = drop 0 aSlot"
    using len by (intro Cons_nth_drop_Suc) simp
  then have "concat aSlot = aSlot ! 0 @ concat (drop (Suc 0) aSlot)"
    by (metis concat.simps(2) drop_0)
  then show "cursor aSlot (d\<lparr>iIterIdx_m := Some 0, pIterNode_m := Some (aSlot ! 0),
                          bEnd_m := Some False\<rparr>) (concat aSlot)"
    by (simp add: cursor_def)
  show "map_wf (d\<lparr>iIterIdx_m := Some 0, pIterNode_m := Some (aSlot ! 0),
                    bEnd_m := Some False\<rparr>) aSlot"
    using wf by (simp add: map_wf_def)
qed

lemma iterate_calls_sticky:
  "map_wf d aSlot \<Longrightarrow> bEnd_m d = Some True \<Longrightarrow>
   iterate_calls k (handle d) (Some x) = Some (replicate k (END, Some None), handle d)"
proof (induction k arbitrary: x)
  case 0
  then show ?case by simp
next
  case (Suc k)
  have "HashMapIterate (handle d) False (Some x) = Some (END, handle d, Some None)"
    using Suc.prems by (rule HashMapIterate_sticky)
  moreover have "iterate_calls k (handle d) (Some None) = Some (replicate k (END, Some None), handle d)"
    using Suc.prems by (rule Suc.IH)
  ultimately show ?case by simp
qed

lemma iterate_calls_drain:
  "map_wf d aSlot \<Longrightarrow> bEnd_m d = Some False \<Longrightarrow> cursor aSlot d rem \<Longrightarrow>
   \<exists>d'. iterate_calls (length rem + Suc k) (handle d) (Some x) =
           Some (map (\<lambda>p. (SUCC, Some (Some p))) rem @ replicate (Suc k) (END, Some None), handle d')
         \<and> iSize_m d' = iSize_m d"
proof (induction rem arbitrary: d x)
  case Nil
  from HashMapIterate_step [OF Nil.prems, of x] obtain d' where
    s: "HashMapIterate (handle d) False (Some x) = Some (END, handle d', Some None)"
    and w: "map_wf d' aSlot" "iSize_m d' = iSize_m d" "bEnd_m d' = Some True" by auto
  have "iterate_calls k (handle d') (Some None) = Some (replicate k (END, Some None), handle d')"
    using w(1,3) by (rule iterate_calls_sticky)
  with s w(2) show ?case by auto
next
  case (Cons p rest)
  from HashMapIterate_step [OF Cons.prems, of x] obtain d1 where
    s: "HashMapIterate (handle d) False (Some x) = Some (SUCC, handle d1, Some (Some p))"
    and w: "map_wf d1 aSlot" "iSize_m d1 = iSize_m d" "bEnd_m d1 = Some False" "cursor aSlot d1 rest"
    by auto
  define n where "n = length rest + Suc k"
  from Cons.IH [OF w(1,3,4), of "Some p"] obtain d' where
    ih: "iterate_calls n (handle d1) (Some (Some p)) =
       Some (map (\<lambda>p. (SUCC, Some (Some p))) rest @ replicate (Suc k) (END, Some None), handle d')"
    "iSize_m d' = iSize_m d1" unfolding n_def by blast
  have "iterate_calls (Suc n) (handle d) (Some x) =
       Some ((SUCC, Some (Some p)) #
             map (\<lambda>p. (SUCC, Some (Some p))) rest @ replicate (Suc k) (END, Some None), handle d')"
    using s ih(1) by simp
  moreover have "length (p # rest) + Suc k = Suc n" by (simp add: n_def)
  ultimately show ?case using ih(2) w(2) by (intro exI [of _ d']) simp
qed

lemma HashMapIterate_all:
  assumes wf: "map_wf d aSlot"
  shows "\<exists>d0. HashMapIterate (handle d) True pp = Some (SUCC, handle d0, pp)
     \<and> (\<forall>k x. \<exists>d'. iterate_calls (length (concat aSlot) + Suc k) (handle d0) (Some x) =
            Some (map (\<lambda>p. (SUCC, Some (Some p))) (concat aSlot) @ replicate (Suc k) (END, Some None),
                  handle d'))"
proof -
  let ?d0 = "d\<lparr>iIterIdx_m := Some 0, pIterNode_m := Some (aSlot ! 0), bEnd_m := Some False\<rparr>"
  note R = HashMapIterate_reset [OF wf]
  have "\<exists>d'. iterate_calls (length (concat aSlot) + Suc k) (handle ?d0) (Some x) =
            Some (map (\<lambda>p. (SUCC, Some (Some p))) (concat aSlot) @ replicate (Suc k) (END, Some None),
                  handle d')" for k x
    using iterate_calls_drain [OF R(3) _ R(2), of k x] by auto
  with R(1) show ?thesis by blast
qed

lemma replicate_update_same: "(replicate n x)[i := x] = replicate n x"
  by (induction n arbitrary: i) (auto split: nat.splits)

text \<open>
  C5 (a full iteration yields exactly \<open>size()\<close> pairs). Whatever the hash function:
  after \<open>HashMapInit\<close>, a put of key a and a remove of key a, a reset followed by
  iterate calls yields no pair at all (every call returns \<open>END\<close> with the output slot
  null), while \<open>HashMapSize\<close> returns 1.
\<close>

theorem HashMapIterate_after_remove:
  "\<exists>s1 s2 s3 s4.
      HashMapPut True (snd (HashMapInit True True True hf)) pair_a 1 = Some (SUCC, s1)
    \<and> HashMapRemove s1 ''a'' 1 = Some (SUCC, s2)
    \<and> HashMapSize s2 = Inr 1
    \<and> HashMapIterate s2 True (Some None) = Some (SUCC, s3, Some None)
    \<and> HashMapIterate s3 False (Some None) = Some (END, s4, Some None)"
proof -
  define d0 where "d0 = init_data hf"
  define i where "i = slot_of d0 ''a'' 1"
  define A1 where "A1 = (replicate 769 ([] :: Pair list))[i := [pair_a]]"
  define d1 where "d1 = d0\<lparr>iSize_m := iSize_m d0 + 1, aSlot_m := Some A1\<rparr>"
  define d2 where "d2 = (call_destroy_m d1 pair_a)\<lparr>aSlot_m := Some (replicate 769 [])\<rparr>"
  define d3 where "d3 = d2\<lparr>iIterIdx_m := Some 0, pIterNode_m := Some (replicate 769 [] ! 0),
                  bEnd_m := Some False\<rparr>"
  have k: "key pair_a = ''a''" by (simp add: pair_a_def)
  have wf0: "map_wf d0 (replicate 769 [])" unfolding d0_def by (rule map_wf_init)
  have il: "i < 769" using slot_of_lt [OF wf0, of "''a''" 1] unfolding i_def by simp
  have "put_loop (replicate 769 [] ! i) pair_a 1 = Some None" using il by simp
  then have "put_loop (replicate 769 [] ! slot_of d0 (key pair_a) 1) pair_a 1 = Some None"
    unfolding k i_def .
  moreover have e: "replicate 769 ([] :: Pair list) ! slot_of d0 ''a'' 1 = []"
    using il unfolding i_def by simp
  ultimately have p: "HashMapPut True (handle d0) pair_a 1 = Some (SUCC, handle d1)"
    using HashMapPut_result [OF wf0, of 1 pair_a None True]
    unfolding d1_def A1_def i_def k by simp
  have f1: "iCountSlot_m d1 = 769" "aSlot_m d1 = Some A1" "pHash_m d1 = pHash_m d0"
    "iCountSlot_m d0 = 769" "iSize_m d1 = 1"
    unfolding d1_def d0_def by (simp_all add: init_data_def)
  have wf1: "map_wf d1 A1" using f1 unfolding A1_def by (simp add: map_wf_def)
  have so: "slot_of d1 ''a'' 1 = i" unfolding i_def using f1 by (simp add: slot_of_def)
  have "remove_scan (A1 ! i) ''a'' 1 = Some (Some (pair_a, []))"
    unfolding A1_def using il by (simp add: memcmp_def k)
  then have rs: "remove_scan (A1 ! slot_of d1 ''a'' 1) ''a'' 1 = Some (Some (pair_a, []))"
    unfolding so .
  have "A1[i := []] = replicate 769 []" unfolding A1_def by (simp add: replicate_update_same)
  with HashMapRemove_result [OF wf1 _ rs]
  have r: "HashMapRemove (handle d1) ''a'' 1 = Some (SUCC, handle d2)"
    unfolding so d2_def by simp
  have f2: "iCountSlot_m d2 = 769" "aSlot_m d2 = Some (replicate 769 [])" "iSize_m d2 = 1"
    unfolding d2_def using f1 by simp_all
  have wf2: "map_wf d2 (replicate 769 [])" using f2 by (simp add: map_wf_def)
  have sz: "HashMapSize (handle d2) = Inr 1"
    using f2 by (simp add: HashMapSize_def CHECK_INIT_handle [OF wf2])
  note R1 = HashMapIterate_reset(1) [OF wf2, of "Some None", folded d3_def]
  note R2 = HashMapIterate_reset(2) [OF wf2, folded d3_def]
  note R3 = HashMapIterate_reset(3) [OF wf2, folded d3_def]
  have be: "bEnd_m d3 = Some False" unfolding d3_def by simp
  have cu: "cursor (replicate 769 []) d3 []" using R2 by simp
  from HashMapIterate_step [OF R3 be cu, of None] obtain d4 where
    "HashMapIterate (handle d3) False (Some None) = Some (END, handle d4, Some None)"
    by auto
  with p r sz R1 show ?thesis unfolding HashMapInit_ok d0_def by auto
qed

end
